theory Spec2Isabelle
  imports
    Complex_Main
    "HOL-Library.Log_Nat"
    "HOL-Library.Char_ord"
    "HOL-Library.List_Lexorder"
    "HOL-Library.AList"
begin

section \<open>Python values used by the transcriber\<close>

subsection \<open>Strings and integers\<close>

text \<open>
  A Python \<open>str\<close> is modelled as a \<^typ>\<open>string\<close>, a list of characters whose code
  points lie below 256, and a Python \<open>int\<close> as an \<^typ>\<open>int\<close>.  Strings are compared
  as Python compares them, code point by code point: that is the lexicographic order
  of \<open>List_Lexorder\<close> over the character order of \<open>Char_ord\<close>.
\<close>

definition NL :: string where
  "NL = [CHR 0x0A]"

definition digit_char :: "nat \<Rightarrow> char" where
  "digit_char d = char_of (48 + d)"

fun dec_digits :: "nat \<Rightarrow> string" where
  "dec_digits n = (if n < 10 then [digit_char n] else dec_digits (n div 10) @ [digit_char (n mod 10)])"

declare dec_digits.simps [simp del]

text \<open>\<open>str(i)\<close> for an integer.\<close>

definition py_str_int :: "int \<Rightarrow> string" where
  "py_str_int i = (if i < 0 then CHR ''-'' # dec_digits (nat (- i)) else dec_digits (nat i))"

text \<open>
  \<open>format(i, "0wd")\<close>, the conversion behind \<open>f"{i:02d}"\<close> and \<open>f"{i:03d}"\<close>: the
  sign, when there is one, counts in the width and the zeros come after it; a number
  with more digits than the width is printed in full.
\<close>

definition zfill :: "nat \<Rightarrow> string \<Rightarrow> string" where
  "zfill w s = replicate (w - length s) CHR ''0'' @ s"

definition format_d :: "nat \<Rightarrow> int \<Rightarrow> string" where
  "format_d w i =
     (if i < 0 then CHR ''-'' # zfill (w - 1) (dec_digits (nat (- i)))
      else zfill w (dec_digits (nat i)))"

text \<open>
  \<open>str.lower()\<close> on the code points below 256: the ASCII capitals and the Latin-1
  capitals (all of \<open>0xC0..0xDE\<close> but the multiplication sign \<open>0xD7\<close>) move up by 32.
\<close>

definition lower_char :: "char \<Rightarrow> char" where
  "lower_char c =
     (let n = (of_char c :: nat)
      in if (65 \<le> n \<and> n \<le> 90) \<or> (192 \<le> n \<and> n \<le> 222 \<and> n \<noteq> 215)
         then char_of (n + 32) else c)"

definition py_lower :: "string \<Rightarrow> string" where
  "py_lower s = map lower_char s"

text \<open>
  \<open>str.strip()\<close> removes the characters for which \<open>str.isspace\<close> holds from both ends;
  below 256 these are \<open>0x09..0x0D\<close>, \<open>0x1C..0x20\<close>, \<open>0x85\<close> and \<open>0xA0\<close>.
\<close>

definition is_space :: "char \<Rightarrow> bool" where
  "is_space c =
     (let n = (of_char c :: nat)
      in (9 \<le> n \<and> n \<le> 13) \<or> (28 \<le> n \<and> n \<le> 32) \<or> n = 133 \<or> n = 160)"

definition py_strip :: "string \<Rightarrow> string" where
  "py_strip s = rev (dropWhile is_space (rev (dropWhile is_space s)))"

text \<open>\<open>sep.join(xs)\<close>.\<close>

fun py_join :: "string \<Rightarrow> string list \<Rightarrow> string" where
  "py_join sep [] = []"
| "py_join sep [x] = x"
| "py_join sep (x # y # ys) = x @ sep @ py_join sep (y # ys)"

subsection \<open>Floating point\<close>

text \<open>
  A finite Python float is modelled by the real number it denotes.  The arithmetic
  operations of IEEE 754 return the exact result rounded to the nearest representable
  number, ties going to the even significand; \<open>float_round p emin\<close> is this rounding
  for a format with \<open>p\<close> significand bits whose least positive number is \<open>2 powi emin\<close>
  (binary64: \<open>p = 53\<close>, \<open>emin = -1074\<close>; binary32: \<open>p = 24\<close>, \<open>emin = -149\<close>).
  Overflow to infinity is not modelled: no operation below comes near the largest
  finite number.  Infinities and NaN are outside the model.
\<close>

definition ilog2 :: "real \<Rightarrow> int" where
  \<comment> \<open>for \<open>x > 0\<close>, the \<open>k\<close> with \<open>2 powi k \<le> x < 2 powi (k + 1)\<close>\<close>
  "ilog2 x = (if 1 \<le> x then bitlen \<lfloor>x\<rfloor> - 1 else - bitlen (\<lceil>1 / x\<rceil> - 1))"

definition rne :: "real \<Rightarrow> int" where
  \<comment> \<open>round to the nearest integer, ties to even\<close>
  "rne x =
     (let f = \<lfloor>x\<rfloor>; r = x - of_int f
      in if r < 1 / 2 then f else if 1 / 2 < r then f + 1 else if even f then f else f + 1)"

definition float_exp :: "nat \<Rightarrow> int \<Rightarrow> real \<Rightarrow> int" where
  \<comment> \<open>the exponent of the last significand bit of the numbers around \<open>x\<close>\<close>
  "float_exp p emin x = max (ilog2 \<bar>x\<bar> - (int p - 1)) emin"

definition float_round :: "nat \<Rightarrow> int \<Rightarrow> real \<Rightarrow> real" where
  "float_round p emin x =
     (if x = 0 then 0
      else let e = float_exp p emin x;
               m = rne (\<bar>x\<bar> / 2 powi e)
           in sgn x * of_int m * 2 powi e)"

definition fl64 :: "real \<Rightarrow> real" where
  "fl64 = float_round 53 (- 1074)"

definition fl32 :: "real \<Rightarrow> real" where
  "fl32 = float_round 24 (- 149)"

definition is_double :: "real \<Rightarrow> bool" where
  \<comment> \<open>the real number is (the value of) a Python float\<close>
  "is_double x \<longleftrightarrow> fl64 x = x"

text \<open>Float subtraction and multiplication.\<close>

definition fsub :: "real \<Rightarrow> real \<Rightarrow> real" where
  "fsub x y = fl64 (x - y)"

definition fmul :: "real \<Rightarrow> real \<Rightarrow> real" where
  "fmul x y = fl64 (x * y)"

text \<open>
  \<open>x // y\<close> and \<open>x % y\<close> on floats, for a positive divisor.  CPython computes both from
  the C function \<open>fmod\<close>, which is exact; for the operands that occur here (a
  non-negative number of seconds below \<open>2 ^ 53\<close>, divided by 3600 or 60) the quotient
  is an integer that is representable, so no rounding takes place.
\<close>

definition py_floordiv :: "real \<Rightarrow> real \<Rightarrow> real" where
  "py_floordiv x y = of_int \<lfloor>x / y\<rfloor>"

definition py_mod :: "real \<Rightarrow> real \<Rightarrow> real" where
  "py_mod x y = x - of_int \<lfloor>x / y\<rfloor> * y"

text \<open>\<open>int(x)\<close> truncates towards zero.\<close>

definition py_int :: "real \<Rightarrow> int" where
  "py_int x = (if 0 \<le> x then \<lfloor>x\<rfloor> else \<lceil>x\<rceil>)"

section \<open>The transcription result (\<open>transcriber.py\<close>)\<close>

datatype error =
    ValueError string
  | EngineException string

text \<open>
  \<open>ValueError\<close> carries its message.  \<open>EngineException msg\<close> stands for an exception
  that the Whisper library raised and that this code lets through unchanged; \<open>msg\<close> is
  its text.

  The dataclasses \<open>Segment\<close> (fields \<open>id\<close>, \<open>start\<close>, \<open>end\<close>, \<open>text\<close>) and
  \<open>TranscriptionResult\<close> (fields \<open>text\<close>, \<open>segments\<close>, \<open>language\<close>); the field names
  carry a prefix where the plain name is taken in Isabelle.
\<close>

record Segment =
  seg_id :: int
  seg_start :: real
  seg_end :: real
  seg_text :: string

record TranscriptionResult =
  res_text :: string
  segments :: "Segment list"
  language :: string

section \<open>Output formats (\<open>postprocessor.py\<close>)\<close>

definition format_timestamp :: "real \<Rightarrow> string \<Rightarrow> error + string" where
  "format_timestamp seconds format_type =
     (let hours = py_int (py_floordiv seconds 3600);
          seconds = py_mod seconds 3600;
          minutes = py_int (py_floordiv seconds 60);
          seconds = py_mod seconds 60;
          milliseconds = py_int (fmul (fsub seconds (of_int (py_int seconds))) 1000);
          seconds = py_int seconds
      in if py_lower format_type = ''srt'' then
           Inr (format_d 2 hours @ '':'' @ format_d 2 minutes @ '':'' @ format_d 2 seconds
                @ '','' @ format_d 3 milliseconds)
         else if py_lower format_type = ''vtt'' then
           Inr (format_d 2 hours @ '':'' @ format_d 2 minutes @ '':'' @ format_d 2 seconds
                @ ''.'' @ format_d 3 milliseconds)
         else Inl (ValueError (''Unsupported format type: '' @ format_type)))"


text \<open>
  Two readings of decimal digits that the proofs use: the number that a string of
  digits denotes, and the last \<open>w\<close> digits of a number.
\<close>

definition digits_value :: "string \<Rightarrow> nat" where
  "digits_value ds = foldl (\<lambda>a c. 10 * a + (of_char c - 48)) 0 ds"



text \<open>
  The loop of \<open>generate_srt\<close> over \<open>result.segments\<close>, with the list \<open>srt_lines\<close> built
  so far as accumulator.
\<close>

fun srt_loop :: "Segment list \<Rightarrow> string list \<Rightarrow> error + string list" where
  "srt_loop [] srt_lines = Inr srt_lines"
| "srt_loop (segment # rest) srt_lines =
     (case format_timestamp (seg_start segment) ''srt'' of
        Inl e \<Rightarrow> Inl e
      | Inr start_time \<Rightarrow>
          (case format_timestamp (seg_end segment) ''srt'' of
             Inl e \<Rightarrow> Inl e
           | Inr end_time \<Rightarrow>
               srt_loop rest
                 (srt_lines @ [py_str_int (seg_id segment + 1),
                               start_time @ '' --> '' @ end_time,
                               seg_text segment,
                               ''''])))"

definition generate_srt :: "TranscriptionResult \<Rightarrow> error + string" where
  "generate_srt result =
     (case srt_loop (segments result) [] of
        Inl e \<Rightarrow> Inl e
      | Inr srt_lines \<Rightarrow> Inr (py_join NL srt_lines))"

fun vtt_loop :: "Segment list \<Rightarrow> string list \<Rightarrow> error + string list" where
  "vtt_loop [] vtt_lines = Inr vtt_lines"
| "vtt_loop (segment # rest) vtt_lines =
     (case format_timestamp (seg_start segment) ''vtt'' of
        Inl e \<Rightarrow> Inl e
      | Inr start_time \<Rightarrow>
          (case format_timestamp (seg_end segment) ''vtt'' of
             Inl e \<Rightarrow> Inl e
           | Inr end_time \<Rightarrow>
               vtt_loop rest
                 (vtt_lines @ [start_time @ '' --> '' @ end_time,
                               seg_text segment,
                               ''''])))"

definition generate_vtt :: "TranscriptionResult \<Rightarrow> error + string" where
  "generate_vtt result =
     (case vtt_loop (segments result) [''WEBVTT'', ''''] of
        Inl e \<Rightarrow> Inl e
      | Inr vtt_lines \<Rightarrow> Inr (py_join NL vtt_lines))"


text \<open>
  The subtitle formats as the specification words them: for each segment its lines,
  each ended by a new line, and then an empty line.  An SRT block starts with the
  number of the segment, a WebVTT block has no number.
\<close>

definition srt_block :: "Segment \<Rightarrow> string" where
  "srt_block segment =
     py_str_int (seg_id segment + 1) @ NL
     @ projr (format_timestamp (seg_start segment) ''srt'') @ '' --> ''
     @ projr (format_timestamp (seg_end segment) ''srt'') @ NL
     @ seg_text segment @ NL
     @ NL"

definition vtt_block :: "Segment \<Rightarrow> string" where
  "vtt_block segment =
     projr (format_timestamp (seg_start segment) ''vtt'') @ '' --> ''
     @ projr (format_timestamp (seg_end segment) ''vtt'') @ NL
     @ seg_text segment @ NL
     @ NL"

text \<open>The lines that one pass of each loop appends.\<close>

definition srt_lines_of :: "Segment \<Rightarrow> string list" where
  "srt_lines_of segment =
     [py_str_int (seg_id segment + 1),
      projr (format_timestamp (seg_start segment) ''srt'') @ '' --> ''
        @ projr (format_timestamp (seg_end segment) ''srt''),
      seg_text segment, '''']"

definition vtt_lines_of :: "Segment \<Rightarrow> string list" where
  "vtt_lines_of segment =
     [projr (format_timestamp (seg_start segment) ''vtt'') @ '' --> ''
        @ projr (format_timestamp (seg_end segment) ''vtt''),
      seg_text segment, '''']"

text \<open>The result that the tests and the specification use as their example.\<close>

definition sample_result :: TranscriptionResult where
  "sample_result =
     \<lparr>res_text = ''This is a test transcription with multiple segments.'',
      segments =
        [\<lparr>seg_id = 0, seg_start = 0, seg_end = 2.5, seg_text = ''This is a test''\<rparr>,
         \<lparr>seg_id = 1, seg_start = 2.5, seg_end = 5, seg_text = ''transcription with''\<rparr>,
         \<lparr>seg_id = 2, seg_start = 5, seg_end = 7.5, seg_text = ''multiple segments.''\<rparr>],
      language = ''en''\<rparr>"

subsection \<open>JSON output\<close>

text \<open>
  The objects that \<open>generate_json\<close> hands to \<open>json.dumps\<close>, and that \<open>json.loads\<close>
  returns.  A Python \<open>dict\<close> keeps its keys in insertion order, so it is an association
  list.
\<close>

datatype json =
    JNull
  | JBool bool
  | JInt int
  | JFloat real
  | JStr string
  | JList "json list"
  | JDict "(string \<times> json) list"

text \<open>
  \<open>json.dumps(obj, ensure_ascii=False, indent=2)\<close>, after the encoder of the standard
  library.  With \<open>ensure_ascii=False\<close> a string is written as it is between double
  quotes, but for the backslash, the double quote and the control characters below
  \<open>0x20\<close>, which are escaped.  With an indent, items are separated by a comma and a new
  line, and a key is followed by a colon and a space.  A float is written by Python's
  \<open>repr\<close>, the shortest decimal string that reads back as the same float; it is a
  parameter \<open>float_repr\<close> of the model.
\<close>

definition hex_digit :: "nat \<Rightarrow> char" where
  "hex_digit d = (if d < 10 then char_of (48 + d) else char_of (87 + d))"

definition escape_char :: "char \<Rightarrow> string" where
  "escape_char c =
     (if c = CHR 0x5C then [CHR 0x5C, CHR 0x5C]
      else if c = CHR 0x22 then [CHR 0x5C, CHR 0x22]
      else if c = CHR 0x08 then [CHR 0x5C, CHR ''b'']
      else if c = CHR 0x0C then [CHR 0x5C, CHR ''f'']
      else if c = CHR 0x0A then [CHR 0x5C, CHR ''n'']
      else if c = CHR 0x0D then [CHR 0x5C, CHR ''r'']
      else if c = CHR 0x09 then [CHR 0x5C, CHR ''t'']
      else if (of_char c :: nat) < 32 then
        [CHR 0x5C, CHR ''u'', CHR ''0'', CHR ''0'',
         hex_digit (of_char c div 16), hex_digit (of_char c mod 16)]
      else [c])"

definition encode_basestring :: "string \<Rightarrow> string" where
  "encode_basestring s = CHR 0x22 # concat (map escape_char s) @ [CHR 0x22]"

definition newline_indent :: "nat \<Rightarrow> string" where
  "newline_indent level = NL @ replicate (2 * level) CHR '' ''"

fun iterencode :: "(real \<Rightarrow> string) \<Rightarrow> nat \<Rightarrow> json \<Rightarrow> string" where
  "iterencode float_repr level JNull = ''null''"
| "iterencode float_repr level (JBool b) = (if b then ''true'' else ''false'')"
| "iterencode float_repr level (JInt i) = py_str_int i"
| "iterencode float_repr level (JFloat x) = float_repr x"
| "iterencode float_repr level (JStr s) = encode_basestring s"
| "iterencode float_repr level (JList xs) =
     (if xs = [] then ''[]''
      else ''['' @ newline_indent (level + 1)
           @ py_join ('','' @ newline_indent (level + 1))
               (map (iterencode float_repr (level + 1)) xs)
           @ newline_indent level @ '']'')"
| "iterencode float_repr level (JDict kvs) =
     (if kvs = [] then ''{}''
      else ''{'' @ newline_indent (level + 1)
           @ py_join ('','' @ newline_indent (level + 1))
               (map (\<lambda>kv. encode_basestring (fst kv) @ '': ''
                           @ iterencode float_repr (level + 1) (snd kv)) kvs)
           @ newline_indent level @ ''}'')"


definition segment_dict :: "Segment \<Rightarrow> json" where
  "segment_dict segment =
     JDict [(''id'', JInt (seg_id segment)),
            (''start'', JFloat (seg_start segment)),
            (''end'', JFloat (seg_end segment)),
            (''text'', JStr (seg_text segment))]"



text \<open>
  \<open>json.loads\<close>, after the decoder of the standard library: white space is skipped
  before and after the document and around the separators; a string runs to the next
  unescaped double quote, with the escapes of \<open>BACKSLASH\<close> and \<open>\\uXXXX\<close>, and may not
  hold a control character; a number is the longest match of
  \<open>-?(0|[1-9][0-9]*)(\\.[0-9]+)?([eE][-+]?[0-9]+)?\<close>, read by \<open>int\<close> when it has neither
  fraction nor exponent and by \<open>float\<close> otherwise; \<open>dict\<close> keeps the first position and
  the last value of a repeated key.  \<open>float\<close> rounds the decimal number to the nearest
  float.  The scanner is recursive over the text of the document, so it is a partial
  function: \<open>None\<close> is a \<open>JSONDecodeError\<close> (or no return).  Outside the model, and
  \<open>None\<close> here: an escape \<open>\\uXXXX\<close> above 255 and the tokens \<open>NaN\<close> and \<open>Infinity\<close>.
\<close>

definition is_digit :: "char \<Rightarrow> bool" where
  "is_digit c \<longleftrightarrow> 48 \<le> (of_char c :: nat) \<and> (of_char c :: nat) \<le> 57"

definition is_ws :: "char \<Rightarrow> bool" where
  "is_ws c \<longleftrightarrow> c = CHR '' '' \<or> c = CHR 0x09 \<or> c = CHR 0x0A \<or> c = CHR 0x0D"

definition skip_ws :: "string \<Rightarrow> string" where
  "skip_ws s = dropWhile is_ws s"

definition hex_value :: "char \<Rightarrow> nat option" where
  "hex_value c =
     (let n = (of_char c :: nat)
      in if 48 \<le> n \<and> n \<le> 57 then Some (n - 48)
         else if 97 \<le> n \<and> n \<le> 102 then Some (n - 87)
         else if 65 \<le> n \<and> n \<le> 70 then Some (n - 55)
         else None)"

definition decode_uXXXX :: "string \<Rightarrow> char option" where
  "decode_uXXXX s =
     (case map hex_value (take 4 s) of
        [Some a, Some b, Some c, Some d] \<Rightarrow>
          (let uni = ((a * 16 + b) * 16 + c) * 16 + d
           in if uni < 256 then Some (char_of uni) else None)
      | _ \<Rightarrow> None)"

definition backslash :: "char \<Rightarrow> char option" where
  "backslash c =
     (if c = CHR 0x22 then Some (CHR 0x22)
      else if c = CHR 0x5C then Some (CHR 0x5C)
      else if c = CHR ''/'' then Some (CHR ''/'')
      else if c = CHR ''b'' then Some (CHR 0x08)
      else if c = CHR ''f'' then Some (CHR 0x0C)
      else if c = CHR ''n'' then Some (CHR 0x0A)
      else if c = CHR ''r'' then Some (CHR 0x0D)
      else if c = CHR ''t'' then Some (CHR 0x09)
      else None)"

fun scanstring :: "string \<Rightarrow> string \<Rightarrow> (string \<times> string) option" where
  "scanstring chunks [] = None"
| "scanstring chunks (c # s) =
     (if c = CHR 0x22 then Some (chunks, s)
      else if c = CHR 0x5C then
        (case s of
           [] \<Rightarrow> None
         | esc # s' \<Rightarrow>
             if esc = CHR ''u'' then
               (case decode_uXXXX s' of
                  None \<Rightarrow> None
                | Some ch \<Rightarrow> scanstring (chunks @ [ch]) (drop 4 s'))
             else
               (case backslash esc of
                  None \<Rightarrow> None
                | Some ch \<Rightarrow> scanstring (chunks @ [ch]) s'))
      else if (of_char c :: nat) < 32 then None
      else scanstring (chunks @ [c]) s)"

definition match_frac :: "string \<Rightarrow> string \<times> string" where
  "match_frac s =
     (case s of
        c # d # r \<Rightarrow>
          if c = CHR ''.'' \<and> is_digit d
          then (takeWhile is_digit (d # r), dropWhile is_digit (d # r))
          else ([], s)
      | _ \<Rightarrow> ([], s))"

definition match_exp :: "string \<Rightarrow> int option \<times> string" where
  "match_exp s =
     (case s of
        [] \<Rightarrow> (None, s)
      | e # r \<Rightarrow>
          if e = CHR ''e'' \<or> e = CHR ''E'' then
            (let (sg, r1) =
                   (case r of
                      [] \<Rightarrow> (1, r)
                    | c # r' \<Rightarrow>
                        if c = CHR ''+'' then (1, r')
                        else if c = CHR ''-'' then (- 1, r')
                        else (1, r))
             in if r1 \<noteq> [] \<and> is_digit (hd r1) then
                  (Some (sg * int (digits_value (takeWhile is_digit r1))), dropWhile is_digit r1)
                else (None, s))
          else (None, s))"

definition py_float :: "bool \<Rightarrow> string \<Rightarrow> string \<Rightarrow> int option \<Rightarrow> real" where
  "py_float neg integer fraction expo =
     fl64 ((if neg then - 1 else 1)
           * (of_nat (digits_value integer) + of_nat (digits_value fraction) / 10 ^ length fraction)
           * 10 powi (case expo of None \<Rightarrow> 0 | Some e \<Rightarrow> e))"

definition match_number :: "string \<Rightarrow> (json \<times> string) option" where
  "match_number s =
     (let (neg, s1) = (if s \<noteq> [] \<and> hd s = CHR ''-'' then (True, tl s) else (False, s))
      in if s1 = [] \<or> \<not> is_digit (hd s1) then None
         else
           let (integer, s2) =
                 (if hd s1 = CHR ''0'' then (''0'', tl s1)
                  else (takeWhile is_digit s1, dropWhile is_digit s1));
               (fraction, s3) = match_frac s2;
               (expo, s4) = match_exp s3
           in if fraction = [] \<and> expo = None then
                Some (JInt ((if neg then - 1 else 1) * int (digits_value integer)), s4)
              else Some (JFloat (py_float neg integer fraction expo), s4))"

definition py_dict :: "(string \<times> json) list \<Rightarrow> (string \<times> json) list" where
  "py_dict pairs = foldl (\<lambda>d kv. AList.update (fst kv) (snd kv) d) [] pairs"

text \<open>
  The three places where the scanner stands: before a value, before an item of an
  array (with the items read so far), before a key of an object (with the pairs read
  so far).
\<close>

datatype scan_state = Val | Items "json list" | Members "(string \<times> json) list"

partial_function (option) scan :: "scan_state \<Rightarrow> string \<Rightarrow> (json \<times> string) option" where
  "scan st s =
     (case st of
        Val \<Rightarrow>
          (case s of
             [] \<Rightarrow> None
           | c # r \<Rightarrow>
               if c = CHR 0x22 then
                 (case scanstring [] r of
                    None \<Rightarrow> None
                  | Some (str, r') \<Rightarrow> Some (JStr str, r'))
               else if c = CHR ''{'' then
                 (case skip_ws r of
                    [] \<Rightarrow> None
                  | d # r' \<Rightarrow>
                      if d = CHR ''}'' then Some (JDict [], r')
                      else scan (Members []) (d # r'))
               else if c = CHR ''['' then
                 (case skip_ws r of
                    [] \<Rightarrow> None
                  | d # r' \<Rightarrow>
                      if d = CHR '']'' then Some (JList [], r')
                      else scan (Items []) (d # r'))
               else if take 4 s = ''null'' then Some (JNull, drop 4 s)
               else if take 4 s = ''true'' then Some (JBool True, drop 4 s)
               else if take 5 s = ''false'' then Some (JBool False, drop 5 s)
               else match_number s)
      | Items values \<Rightarrow>
          Option.bind (scan Val s)
            (\<lambda>(v, r).
               case skip_ws r of
                 [] \<Rightarrow> None
               | d # r' \<Rightarrow>
                   if d = CHR '']'' then Some (JList (values @ [v]), r')
                   else if d = CHR '','' then scan (Items (values @ [v])) (skip_ws r')
                   else None)
      | Members pairs \<Rightarrow>
          (case s of
             [] \<Rightarrow> None
           | q # r \<Rightarrow>
               if q \<noteq> CHR 0x22 then None
               else
                 (case scanstring [] r of
                    None \<Rightarrow> None
                  | Some (key, r1) \<Rightarrow>
                      (case skip_ws r1 of
                         [] \<Rightarrow> None
                       | colon # r2 \<Rightarrow>
                           if colon \<noteq> CHR '':'' then None
                           else
                             Option.bind (scan Val (skip_ws r2))
                               (\<lambda>(v, r3).
                                  case skip_ws r3 of
                                    [] \<Rightarrow> None
                                  | d # r4 \<Rightarrow>
                                      if d = CHR ''}'' then
                                        Some (JDict (py_dict (pairs @ [(key, v)])), r4)
                                      else if d = CHR '','' then
                                        scan (Members (pairs @ [(key, v)])) (skip_ws r4)
                                      else None)))))"

declare scan.simps [code]

definition json_loads :: "string \<Rightarrow> json option" where
  "json_loads s =
     (case scan Val (skip_ws s) of
        None \<Rightarrow> None
      | Some (obj, rest) \<Rightarrow> if skip_ws rest = [] then Some obj else None)"

text \<open>
  Python's \<open>repr\<close> writes a float so that it reads back as the same float.  For the
  parameter \<open>float_repr\<close> this is a condition: the scanner reads the text, before a
  comma, as the float that was written.
\<close>

definition reads_back :: "(real \<Rightarrow> string) \<Rightarrow> real \<Rightarrow> bool" where
  "reads_back float_repr x \<longleftrightarrow>
     (\<forall>rest. scan Val (float_repr x @ CHR '','' # rest) = Some (JFloat x, CHR '','' # rest))"

subsection \<open>Writing the files\<close>

text \<open>
  The file system as \<open>save_transcription\<close> sees it: the text files that exist, and
  the paths that cannot be opened for writing.  \<open>open(path, "w")\<close> followed by
  \<open>f.write(content)\<close> either replaces the file or raises an \<open>OSError\<close>, of which
  the handler only uses the text.
\<close>

record filesystem =
  files :: "string \<Rightarrow> string option"
  denied :: "string \<Rightarrow> bool"


datatype log_record =
    LogDebug string
  | LogInfo string
  | LogWarning string
  | LogError string







text \<open>
  What \<open>save_transcription\<close> is to achieve, in terms of the request and of the file
  system before the call: the names it accepts, and the formats that get written, which
  are the accepted names of the request, in lower case, whose file can be written.
\<close>

definition supported_formats :: "string list" where
  "supported_formats = [''txt'', ''srt'', ''vtt'', ''json'']"

definition written_formats :: "filesystem \<Rightarrow> string \<Rightarrow> string list \<Rightarrow> string set" where
  "written_formats fs output_path formats =
     set (filter (\<lambda>k. k \<in> set supported_formats \<and> \<not> denied fs (output_path @ ''.'' @ k))
            (map py_lower formats))"


section \<open>Audio preparation (\<open>audio.py\<close>)\<close>

text \<open>
  What the code reads of a pydub \<open>AudioSegment\<close>: the number of channels, the frame
  rate, the width of a sample in bytes, and the interleaved PCM samples that
  \<open>get_array_of_samples()\<close> returns.
\<close>

record AudioSegment =
  channels :: int
  frame_rate :: int
  sample_width :: int
  samples :: "int list"

definition SAMPLE_RATE :: int where
  "SAMPLE_RATE = 16000"

text \<open>
  pydub's \<open>set_channels\<close> and \<open>set_frame_rate\<close> return a segment with the requested
  number of channels or frame rate and leave the other attributes as they are.  How
  they recompute the samples (averaging the channels, resampling) is pydub's business:
  it is a parameter of the model, on which nothing is assumed.
\<close>

definition set_channels ::
  "(AudioSegment \<Rightarrow> int \<Rightarrow> int list) \<Rightarrow> AudioSegment \<Rightarrow> int \<Rightarrow> AudioSegment" where
  "set_channels mix audio n = audio\<lparr>channels := n, samples := mix audio n\<rparr>"

definition set_frame_rate ::
  "(AudioSegment \<Rightarrow> int \<Rightarrow> int list) \<Rightarrow> AudioSegment \<Rightarrow> int \<Rightarrow> AudioSegment" where
  "set_frame_rate resample audio r = audio\<lparr>frame_rate := r, samples := resample audio r\<rparr>"

text \<open>
  \<open>preprocess_audio\<close> returns the segment; the model also returns the debug messages,
  one for each of the two branches that was taken.
\<close>

definition preprocess_audio ::
  "(AudioSegment \<Rightarrow> int \<Rightarrow> int list) \<Rightarrow> (AudioSegment \<Rightarrow> int \<Rightarrow> int list)
   \<Rightarrow> AudioSegment \<Rightarrow> AudioSegment \<times> log_record list" where
  "preprocess_audio mix resample audio =
     (let (audio, logs) =
            (if channels audio > 1 then
               (set_channels mix audio 1,
                [LogDebug (''Converting from '' @ py_str_int (channels audio)
                           @ '' channels to mono'')])
             else (audio, []));
          (audio, logs) =
            (if frame_rate audio \<noteq> SAMPLE_RATE then
               (set_frame_rate resample audio SAMPLE_RATE,
                logs @ [LogDebug (''Resampling from '' @ py_str_int (frame_rate audio)
                                  @ ''Hz to '' @ py_str_int SAMPLE_RATE @ ''Hz'')])
             else (audio, logs))
      in (audio, logs))"

text \<open>
  \<open>get_audio_array\<close>: the samples become a \<open>float32\<close> array, which is divided by the
  integer \<open>1 << (8 * sample_width - 1)\<close>.  NumPy converts the integer to \<open>float32\<close> and
  divides element by element, in \<open>float32\<close>.  A negative shift count is a
  \<open>ValueError\<close> in Python.
\<close>

definition get_audio_array :: "AudioSegment \<Rightarrow> error + real list" where
  "get_audio_array audio =
     (let samples = map (\<lambda>x. fl32 (of_int x)) (samples audio)
      in if 8 * sample_width audio - 1 < 0 then Inl (ValueError ''negative shift count'')
         else let max_possible_amplitude = (2 :: int) ^ nat (8 * sample_width audio - 1)
              in Inr (map (\<lambda>x. fl32 (x / fl32 (of_int max_possible_amplitude))) samples))"

text \<open>
  The largest amplitude of the bit depth, \<open>2 ^ (bits - 1)\<close> for \<open>bits = 8 * sample_width\<close>.
\<close>

definition max_amplitude :: "AudioSegment \<Rightarrow> int" where
  "max_amplitude audio = 2 ^ nat (8 * sample_width audio - 1)"

section \<open>The transcriber (\<open>transcriber.py\<close>)\<close>

text \<open>
  The Whisper library is outside the repository.  It enters the model as two
  functions: \<open>whisper_load_model\<close> returns a model handle, and \<open>model_transcribe\<close>
  runs a model on the audio and returns the text, the segments and the language; each
  may raise instead, which is \<open>Inl\<close> with the text of the exception.
\<close>

record whisper_segment =
  ws_start :: real
  ws_end :: real
  ws_text :: string

record whisper_result =
  wr_text :: string
  wr_segments :: "whisper_segment list"
  wr_language :: string

record ('m, 'a) whisper =
  whisper_load_model :: "string \<Rightarrow> string option \<Rightarrow> string + 'm"
  model_transcribe :: "'m \<Rightarrow> 'a \<Rightarrow> string option \<Rightarrow> string \<Rightarrow> string + whisper_result"

record 'm WhisperTranscriber =
  model_name :: string
  device :: "string option"
  model :: "'m option"

definition load_model ::
  "('m, 'a) whisper \<Rightarrow> 'm WhisperTranscriber \<Rightarrow> (error + unit) \<times> 'm WhisperTranscriber" where
  "load_model engine self =
     (case model self of
        None \<Rightarrow>
          (case whisper_load_model engine (model_name self) (device self) of
             Inl msg \<Rightarrow> (Inl (EngineException msg), self)
           | Inr m \<Rightarrow> (Inr (), self\<lparr>model := Some m\<rparr>))
      | Some m \<Rightarrow> (Inr (), self))"

definition convert_whisper_segments :: "whisper_segment list \<Rightarrow> Segment list" where
  "convert_whisper_segments segs =
     map (\<lambda>(i, segment).
            \<lparr>seg_id = int i, seg_start = ws_start segment, seg_end = ws_end segment,
             seg_text = py_strip (ws_text segment)\<rparr>)
         (enumerate 0 segs)"

definition transcribe ::
  "('m, 'a) whisper \<Rightarrow> 'm WhisperTranscriber \<Rightarrow> 'a \<Rightarrow> string option \<Rightarrow> string
   \<Rightarrow> (error + TranscriptionResult) \<times> 'm WhisperTranscriber" where
  "transcribe engine self audio lang task =
     (if task \<notin> set [''transcribe'', ''translate''] then
        (Inl (ValueError (''Invalid task: '' @ task @ ''. Choose from: transcribe, translate'')),
         self)
      else
        (case load_model engine self of
           (Inl e, self') \<Rightarrow> (Inl e, self')
         | (Inr u, self') \<Rightarrow>
             (case model self' of
                None \<Rightarrow>
                  (Inl (ValueError (''Transcription failed: ''
                          @ ''NoneType object has no attribute transcribe'')), self')
              | Some m \<Rightarrow>
                  (case model_transcribe engine m audio lang task of
                     Inl msg \<Rightarrow> (Inl (ValueError (''Transcription failed: '' @ msg)), self')
                   | Inr result \<Rightarrow>
                       (Inr \<lparr>res_text = py_strip (wr_text result),
                             segments = convert_whisper_segments (wr_segments result),
                             language = wr_language result\<rparr>,
                        self')))))"

section \<open>Rounding to a float\<close>

lemma pow2_pos: "0 < (2::real) powi e" by simp

lemma pow2_add: "(2::real) powi (a + b) = 2 powi a * 2 powi b"
  by (simp add: power_int_add)

lemma pow2_le: "a \<le> b \<Longrightarrow> (2::real) powi a \<le> 2 powi b"
  by (rule power_int_increasing) simp_all

lemma pow2_less: "a < b \<Longrightarrow> (2::real) powi a < 2 powi b"
  by (rule power_int_strict_increasing) simp_all

lemma pow2_nat: "0 \<le> e \<Longrightarrow> (2::real) powi e = of_int (2 ^ nat e)"
  by (simp add: power_int_nonneg_exp)

lemma pow2_minus_less: "2 powi e * x < 1 \<Longrightarrow> x < (2::real) powi (- e)"
  by (simp add: power_int_minus field_simps)

lemma pow2_minus_le: "1 \<le> 2 powi e * x \<Longrightarrow> (2::real) powi (- e) \<le> x"
  by (simp add: power_int_minus field_simps)

lemma ilog2_bounds:
  assumes "0 < x"
  shows "2 powi (ilog2 x) \<le> x" and "x < 2 powi (ilog2 x + 1)"
proof -
  have "2 powi (ilog2 x) \<le> x \<and> x < 2 powi (ilog2 x + 1)"
  proof (cases "1 \<le> x")
    case True
    define n where "n = \<lfloor>x\<rfloor>"
    have n: "0 < n" using True by (simp add: n_def)
    have k: "0 \<le> bitlen n - 1" using n bitlen_nonneg [of n] bitlen_eq_zero_iff [of n] by linarith
    have il: "ilog2 x = bitlen n - 1" using True by (simp add: ilog2_def n_def)
    from bitlen_bounds [OF n] have b1: "2 ^ nat (bitlen n - 1) \<le> n" and b2: "n < 2 ^ nat (bitlen n)"
      by simp_all
    have "2 powi (bitlen n - 1) = real_of_int (2 ^ nat (bitlen n - 1))"
      using k by (rule pow2_nat)
    also have "\<dots> \<le> of_int n" using b1 by linarith
    also have "\<dots> \<le> x" by (simp add: n_def)
    finally have 1: "2 powi (ilog2 x) \<le> x" by (simp add: il)
    have "n + 1 \<le> 2 ^ nat (bitlen n)" using b2 by simp
    then have "real_of_int (n + 1) \<le> real_of_int (2 ^ nat (bitlen n))" by linarith
    moreover have "x < real_of_int (n + 1)" by (simp add: n_def)
    moreover have "2 powi (bitlen n - 1 + 1) = real_of_int (2 ^ nat (bitlen n))"
      using pow2_nat [of "bitlen n"] bitlen_nonneg [of n] by simp
    ultimately have 2: "x < 2 powi (ilog2 x + 1)" by (simp add: il)
    show ?thesis using 1 2 by simp
  next
    case False
    define c where "c = \<lceil>1 / x\<rceil>"
    have x1: "x < 1" using False by simp
    have y: "1 < 1 / x" using assms x1 by simp
    have c2: "2 \<le> c" using y by (simp add: c_def)
    define b where "b = bitlen (c - 1)"
    have cpos: "0 < c - 1" using c2 by simp
    have b1: "1 \<le> b" using cpos bitlen_nonneg [of "c - 1"] bitlen_eq_zero_iff [of "c - 1"]
      unfolding b_def by linarith
    have il: "ilog2 x = - b" using False by (simp add: ilog2_def c_def b_def)
    from bitlen_bounds [OF cpos] have lo: "2 ^ nat (b - 1) \<le> c - 1" and hi: "c - 1 < 2 ^ nat b"
      by (simp_all add: b_def)
    have yc: "1 / x \<le> of_int c" by (simp add: c_def)
    have cy: "of_int (c - 1) < 1 / x" unfolding c_def by linarith
    have "of_int c \<le> real_of_int (2 ^ nat b)" using hi by linarith
    also have "\<dots> = 2 powi b" using pow2_nat [of b] b1 by simp
    finally have "1 / x \<le> 2 powi b" using yc by linarith
    then have "1 \<le> 2 powi b * x" using assms by (simp add: field_simps)
    then have "2 powi (- b) \<le> x"
      by (rule pow2_minus_le)
    then have 1: "2 powi (ilog2 x) \<le> x" by (simp add: il)
    have "2 powi (b - 1) = real_of_int (2 ^ nat (b - 1))" using pow2_nat [of "b - 1"] b1 by simp
    also have "\<dots> \<le> of_int (c - 1)" using lo by linarith
    finally have "2 powi (b - 1) < 1 / x" using cy by linarith
    then have "2 powi (b - 1) * x < 1" using assms by (simp add: field_simps)
    then have "x < 2 powi (- (b - 1))"
      by (rule pow2_minus_less)
    moreover have "- (b - 1) = ilog2 x + 1" by (simp add: il)
    ultimately have 2: "x < 2 powi (ilog2 x + 1)" by (simp only:)
    show ?thesis using 1 2 by simp
  qed
  then show "2 powi (ilog2 x) \<le> x" and "x < 2 powi (ilog2 x + 1)" by simp_all
qed

lemma ilog2_unique:
  assumes "2 powi k \<le> x" and "x < 2 powi (k + 1)"
  shows "ilog2 x = k"
proof -
  have x: "0 < x" using assms(1) pow2_pos [of k] by linarith
  have "\<not> ilog2 x < k"
  proof
    assume "ilog2 x < k"
    then have "ilog2 x + 1 \<le> k" by simp
    then have "2 powi (ilog2 x + 1) \<le> (2::real) powi k" by (rule pow2_le)
    then show False using ilog2_bounds(2) [OF x] assms(1) by linarith
  qed
  moreover have "\<not> k < ilog2 x"
  proof
    assume "k < ilog2 x"
    then have "k + 1 \<le> ilog2 x" by simp
    then have "2 powi (k + 1) \<le> (2::real) powi (ilog2 x)" by (rule pow2_le)
    then show False using ilog2_bounds(1) [OF x] assms(2) by linarith
  qed
  ultimately show ?thesis by linarith
qed

lemma ilog2_mono:
  assumes "0 < x" and "x \<le> y"
  shows "ilog2 x \<le> ilog2 y"
proof (rule ccontr)
  assume "\<not> ilog2 x \<le> ilog2 y"
  then have "ilog2 y + 1 \<le> ilog2 x" by simp
  then have "2 powi (ilog2 y + 1) \<le> (2::real) powi (ilog2 x)" by (rule pow2_le)
  moreover have "y < 2 powi (ilog2 y + 1)" using assms by (intro ilog2_bounds) simp
  moreover have "2 powi (ilog2 x) \<le> x" using assms by (intro ilog2_bounds)
  ultimately show False using assms(2) by linarith
qed

lemma rne_of_int: "rne (of_int n) = n"
  by (simp add: rne_def)

lemma rne_floor: "\<lfloor>x\<rfloor> \<le> rne x" "rne x \<le> \<lfloor>x\<rfloor> + 1"
  by (simp_all add: rne_def Let_def)

lemma rne_mono:
  assumes "x \<le> y"
  shows "rne x \<le> rne y"
proof (cases "\<lfloor>x\<rfloor> = \<lfloor>y\<rfloor>")
  case True
  have "x - of_int \<lfloor>x\<rfloor> \<le> y - of_int \<lfloor>y\<rfloor>" using assms True by simp
  then show ?thesis using True by (auto simp add: rne_def Let_def)
next
  case False
  have "\<lfloor>x\<rfloor> \<le> \<lfloor>y\<rfloor>" using assms by (rule floor_mono)
  then have "\<lfloor>x\<rfloor> + 1 \<le> \<lfloor>y\<rfloor>" using False by simp
  then show ?thesis using rne_floor(2) [of x] rne_floor(1) [of y] by linarith
qed

lemma rne_nonneg: "0 \<le> x \<Longrightarrow> 0 \<le> rne x"
  using rne_mono [of 0 x] rne_of_int [of 0] by simp


lemma float_round_0: "float_round p emin 0 = 0"
  by (simp add: float_round_def)

lemma float_exp_minus: "float_exp p emin (- x) = float_exp p emin x"
  by (simp add: float_exp_def)

lemma float_round_minus: "float_round p emin (- x) = - float_round p emin x"
  by (simp add: float_round_def float_exp_minus Let_def sgn_minus)

lemma float_round_pos:
  "0 < x \<Longrightarrow> float_round p emin x
     = of_int (rne (x / 2 powi float_exp p emin x)) * 2 powi float_exp p emin x"
  by (simp add: float_round_def Let_def)

lemma float_exp_ge: "emin \<le> float_exp p emin x"
  by (simp add: float_exp_def)

lemma float_exp_mono:
  "0 < x \<Longrightarrow> x \<le> y \<Longrightarrow> float_exp p emin x \<le> float_exp p emin y"
  using ilog2_mono [of x y] by (simp add: float_exp_def)

lemma float_scaled_less:
  assumes "0 < x" and "1 \<le> p"
  shows "x / 2 powi float_exp p emin x < 2 ^ p"
proof -
  let ?e = "float_exp p emin x"
  have "ilog2 x + 1 \<le> ?e + int p" using assms by (simp add: float_exp_def)
  then have "(2::real) powi (ilog2 x + 1) \<le> 2 powi (?e + int p)" by (rule pow2_le)
  then have "x < 2 powi (?e + int p)" using ilog2_bounds(2) [OF assms(1)] by linarith
  then have "x < 2 powi ?e * 2 ^ p" by (simp add: pow2_add)
  then show ?thesis by (simp add: field_simps)
qed

lemma float_scaled_ge:
  assumes "0 < x" and "1 \<le> p" and "emin < float_exp p emin x"
  shows "2 ^ (p - 1) \<le> x / 2 powi float_exp p emin x"
proof -
  let ?e = "float_exp p emin x"
  have e: "?e = ilog2 x - (int p - 1)" using assms by (simp add: float_exp_def)
  have "ilog2 x = ?e + int (p - 1)" using assms(2) by (simp add: e)
  then have "(2::real) powi (ilog2 x) = 2 powi ?e * 2 ^ (p - 1)"
    by (simp add: pow2_add)
  then have "2 powi ?e * 2 ^ (p - 1) \<le> x" using ilog2_bounds(1) [OF assms(1)] by linarith
  then show ?thesis by (simp add: field_simps)
qed

lemma float_round_nonneg:
  assumes "0 \<le> x"
  shows "0 \<le> float_round p emin x"
proof (cases "x = 0")
  case True
  then show ?thesis by (simp add: float_round_0)
next
  case False
  then have x: "0 < x" using assms by simp
  have "0 \<le> x / 2 powi float_exp p emin x" using x by simp
  then have "0 \<le> rne (x / 2 powi float_exp p emin x)" by (rule rne_nonneg)
  then show ?thesis by (simp add: float_round_pos [OF x])
qed

lemma float_round_mono_pos:
  assumes x: "0 < x" and xy: "x \<le> y" and p: "1 \<le> p"
  shows "float_round p emin x \<le> float_round p emin y"
proof -
  let ?ex = "float_exp p emin x" and ?ey = "float_exp p emin y"
  have y: "0 < y" using x xy by simp
  have le: "?ex \<le> ?ey" using x xy by (rule float_exp_mono)
  show ?thesis
  proof (cases "?ex = ?ey")
    case True
    have "x / 2 powi ?ey \<le> y / 2 powi ?ey" using xy by (simp add: divide_right_mono)
    then have "rne (x / 2 powi ?ey) \<le> rne (y / 2 powi ?ey)" by (rule rne_mono)
    then have "real_of_int (rne (x / 2 powi ?ey)) * 2 powi ?ey
               \<le> real_of_int (rne (y / 2 powi ?ey)) * 2 powi ?ey"
      by (simp add: mult_right_mono)
    then show ?thesis by (simp add: float_round_pos [OF x] float_round_pos [OF y] True)
  next
    case False
    then have lt: "?ex + 1 \<le> ?ey" using le by simp
    have "emin \<le> ?ex" by (rule float_exp_ge)
    then have "emin < ?ey" using lt by simp
    then have "2 ^ (p - 1) \<le> y / 2 powi ?ey" using y p by (intro float_scaled_ge)
    then have "rne (of_int (2 ^ (p - 1))) \<le> rne (y / 2 powi ?ey)"
      by (intro rne_mono) simp
    then have my: "2 ^ (p - 1) \<le> rne (y / 2 powi ?ey)" by (simp only: rne_of_int)
    have "x / 2 powi ?ex \<le> of_int (2 ^ p)" using float_scaled_less [OF x p, of emin] by simp
    then have "rne (x / 2 powi ?ex) \<le> rne (of_int (2 ^ p))" by (rule rne_mono)
    then have mx: "rne (x / 2 powi ?ex) \<le> 2 ^ p" by (simp only: rne_of_int)
    have "float_round p emin x \<le> 2 ^ p * 2 powi ?ex"
      using mx by (simp add: float_round_pos [OF x] mult_right_mono) 
    also have "\<dots> = 2 ^ (p - 1) * 2 powi (?ex + 1)"
    proof -
      have "(2::real) ^ p = 2 ^ (p - 1) * 2" using p by (cases p) simp_all
      then show ?thesis by (simp add: pow2_add)
    qed
    also have "\<dots> \<le> 2 ^ (p - 1) * 2 powi ?ey"
      using pow2_le [OF lt] by (simp add: mult_left_mono)
    also have "\<dots> \<le> float_round p emin y"
    proof -
      have "real_of_int (2 ^ (p - 1)) \<le> real_of_int (rne (y / 2 powi ?ey))"
        using my by linarith
      then show ?thesis by (simp add: float_round_pos [OF y] mult_right_mono)
    qed
    finally show ?thesis .
  qed
qed

lemma float_round_mono:
  assumes xy: "x \<le> y" and p: "1 \<le> p"
  shows "float_round p emin x \<le> float_round p emin y"
proof -
  consider "0 < x" | "x \<le> 0" "0 \<le> y" | "y < 0" by linarith
  then show ?thesis
  proof cases
    case 1
    then show ?thesis using xy p by (rule float_round_mono_pos)
  next
    case 2
    have "0 \<le> float_round p emin (- x)" using 2(1) by (intro float_round_nonneg) simp
    then have "float_round p emin x \<le> 0" by (simp add: float_round_minus)
    moreover have "0 \<le> float_round p emin y" using 2(2) by (rule float_round_nonneg)
    ultimately show ?thesis by linarith
  next
    case 3
    have "float_round p emin (- y) \<le> float_round p emin (- x)"
      using 3 xy p by (intro float_round_mono_pos) simp_all
    then show ?thesis by (simp add: float_round_minus)
  qed
qed


lemma float_round_repr_pos:
  assumes m: "0 < m" "m < 2 ^ p" and e: "emin \<le> e" and p: "1 \<le> p"
  shows "float_round p emin (of_int m * 2 powi e) = of_int m * 2 powi e"
proof -
  let ?x = "real_of_int m * 2 powi e"
  let ?ex = "float_exp p emin ?x"
  have x: "0 < ?x" using m(1) by simp
  have "real_of_int m < real_of_int (2 ^ p)" using m(2) by linarith
  then have "?x < 2 ^ p * 2 powi e" by simp
  then have xlt: "?x < 2 powi (int p + e)" by (simp add: pow2_add)
  have "\<not> int p + e \<le> ilog2 ?x"
  proof
    assume "int p + e \<le> ilog2 ?x"
    then have "(2::real) powi (int p + e) \<le> 2 powi (ilog2 ?x)" by (rule pow2_le)
    then show False using ilog2_bounds(1) [OF x] xlt by linarith
  qed
  then have "ilog2 ?x - (int p - 1) \<le> e" by simp
  then have le: "?ex \<le> e" using e x by (simp add: float_exp_def)
  define k where "k = nat (e - ?ex)"
  define t where "t = (2::real) powi ?ex"
  have t: "0 < t" by (simp add: t_def)
  have ek: "e = ?ex + int k" using le by (simp add: k_def)
  have "(2::real) powi e = 2 powi (?ex + int k)" using ek by simp
  then have pe: "(2::real) powi e = t * 2 ^ k" by (simp only: pow2_add t_def power_int_of_nat)
  have sc: "?x / t = of_int (m * 2 ^ k)" using t by (simp add: pe)
  have "rne (?x / t) = m * 2 ^ k" unfolding sc by (rule rne_of_int)
  then have "float_round p emin ?x = of_int (m * 2 ^ k) * t"
    by (simp add: float_round_pos [OF x] t_def)
  also have "\<dots> = ?x" by (simp add: pe)
  finally show ?thesis .
qed

lemma float_round_repr:
  assumes m: "\<bar>m\<bar> \<le> 2 ^ p" and e: "emin \<le> e" and p: "1 \<le> p"
  shows "float_round p emin (of_int m * 2 powi e) = of_int m * 2 powi e"
proof -
  have pos: "float_round p emin (of_int n * 2 powi e) = of_int n * 2 powi e"
    if n: "0 < n" "n \<le> 2 ^ p" for n
  proof (cases "n = 2 ^ p")
    case False
    then have "n < 2 ^ p" using n by simp
    then show ?thesis using n(1) e p by (intro float_round_repr_pos)
  next
    case True
    have "(2::int) ^ p = 2 ^ (p - 1) * 2" using p by (cases p) simp_all
    then have "real_of_int n * 2 powi e = of_int (2 ^ (p - 1)) * 2 powi (e + 1)"
      by (simp add: True pow2_add)
    moreover have "float_round p emin (of_int (2 ^ (p - 1)) * 2 powi (e + 1))
                   = of_int (2 ^ (p - 1)) * 2 powi (e + 1)"
      using p e by (intro float_round_repr_pos) simp_all
    ultimately show ?thesis by simp
  qed
  consider "0 < m" | "m = 0" | "m < 0" by linarith
  then show ?thesis
  proof cases
    case 1
    then show ?thesis using m by (intro pos) simp_all
  next
    case 2
    then show ?thesis by (simp add: float_round_0)
  next
    case 3
    then have "float_round p emin (of_int (- m) * 2 powi e) = of_int (- m) * 2 powi e"
      using m by (intro pos) simp_all
    then have "float_round p emin (- (of_int m * 2 powi e)) = - (of_int m * 2 powi e)" by simp
    then show ?thesis by (simp only: float_round_minus neg_equal_iff_equal)
  qed
qed

lemma float_round_form:
  assumes p: "1 \<le> p"
  shows "\<exists>m. float_round p emin x = of_int m * 2 powi float_exp p emin x \<and> \<bar>m\<bar> \<le> 2 ^ p
            \<and> (0 \<le> x \<longrightarrow> 0 \<le> m)"
proof -
  have pos: "\<exists>m. float_round p emin y = of_int m * 2 powi float_exp p emin y \<and> 0 \<le> m \<and> m \<le> 2 ^ p"
    if y: "0 < y" for y
  proof -
    let ?m = "rne (y / 2 powi float_exp p emin y)"
    have "y / 2 powi float_exp p emin y \<le> of_int (2 ^ p)"
      using float_scaled_less [OF y p, of emin] by simp
    then have "?m \<le> rne (of_int (2 ^ p))" by (rule rne_mono)
    then have "?m \<le> 2 ^ p" by (simp only: rne_of_int)
    moreover have "0 \<le> ?m" using y by (intro rne_nonneg) simp
    ultimately show ?thesis using float_round_pos [OF y] by blast
  qed
  consider "0 < x" | "x = 0" | "x < 0" by linarith
  then show ?thesis
  proof cases
    case 1
    from pos [OF 1] obtain m where "float_round p emin x = of_int m * 2 powi float_exp p emin x"
      "0 \<le> m" "m \<le> 2 ^ p" by blast
    then show ?thesis by (intro exI [of _ m]) simp
  next
    case 2
    then show ?thesis by (intro exI [of _ 0]) (simp add: float_round_0)
  next
    case 3
    then have "0 < - x" by simp
    from pos [OF this] obtain m where
      "float_round p emin (- x) = of_int m * 2 powi float_exp p emin (- x)" "0 \<le> m" "m \<le> 2 ^ p"
      by blast
    then show ?thesis using 3
      by (intro exI [of _ "- m"]) (simp add: float_round_minus float_exp_minus)
  qed
qed

lemma float_round_idem:
  assumes p: "1 \<le> p"
  shows "float_round p emin (float_round p emin x) = float_round p emin x"
proof -
  from float_round_form [OF p, of emin x] obtain m where
    "float_round p emin x = of_int m * 2 powi float_exp p emin x" "\<bar>m\<bar> \<le> 2 ^ p" by blast
  then show ?thesis using float_round_repr [of m p emin "float_exp p emin x"] float_exp_ge p
    by simp
qed




lemma is_double_repr:
  "\<bar>m\<bar> \<le> 2 ^ 53 \<Longrightarrow> - 1074 \<le> e \<Longrightarrow> is_double (of_int m * 2 powi e)"
  unfolding is_double_def fl64_def by (rule float_round_repr) simp_all







section \<open>The generators return a text\<close>

lemma py_lower_srt: "py_lower ''srt'' = ''srt''" "py_lower ''vtt'' = ''vtt''"
  by (simp_all add: py_lower_def lower_char_def)

lemma format_timestamp_srt_total: "\<exists>t. format_timestamp s ''srt'' = Inr t"
  by (simp add: format_timestamp_def Let_def py_lower_srt)

lemma format_timestamp_vtt_total: "\<exists>t. format_timestamp s ''vtt'' = Inr t"
  by (simp add: format_timestamp_def Let_def py_lower_srt)










lemma written_formats_cong:
  "denied fs' = denied fs \<Longrightarrow> written_formats fs' p fmts = written_formats fs p fmts"
  by (simp add: written_formats_def)



section \<open>The subtitle formats\<close>

lemma py_join_sep:
  "xs \<noteq> [] \<Longrightarrow> py_join sep xs @ sep = concat (map (\<lambda>x. x @ sep) xs)"
  by (induction sep xs rule: py_join.induct) simp_all

lemma py_join_NL: "py_join NL xs = butlast (concat (map (\<lambda>x. x @ NL) xs))"
proof (cases "xs = []")
  case True
  then show ?thesis by simp
next
  case False
  have "butlast (py_join NL xs @ NL) = py_join NL xs"
    by (simp add: NL_def butlast_append)
  then show ?thesis using py_join_sep [OF False, of NL] by simp
qed

lemma srt_loop_lines: "srt_loop segs acc = Inr (acc @ concat (map srt_lines_of segs))"
proof (induction segs arbitrary: acc)
  case Nil show ?case by simp
next
  case (Cons s segs)
  obtain a where a: "format_timestamp (seg_start s) ''srt'' = Inr a"
    using format_timestamp_srt_total by blast
  obtain b where b: "format_timestamp (seg_end s) ''srt'' = Inr b"
    using format_timestamp_srt_total by blast
  show ?case by (simp add: a b Cons.IH srt_lines_of_def)
qed

lemma concat_srt_lines: "concat (map (\<lambda>x. x @ NL) (concat (map srt_lines_of segs))) = concat (map srt_block segs)"
  by (induction segs) (simp_all add: srt_lines_of_def srt_block_def)

lemma generate_srt_blocks0: "generate_srt r = Inr (butlast (concat (map srt_block (segments r))))"
  by (simp add: generate_srt_def srt_loop_lines py_join_NL concat_srt_lines)

lemma vtt_loop_lines: "vtt_loop segs acc = Inr (acc @ concat (map vtt_lines_of segs))"
proof (induction segs arbitrary: acc)
  case Nil show ?case by simp
next
  case (Cons s segs)
  obtain a where a: "format_timestamp (seg_start s) ''vtt'' = Inr a"
    using format_timestamp_vtt_total by blast
  obtain b where b: "format_timestamp (seg_end s) ''vtt'' = Inr b"
    using format_timestamp_vtt_total by blast
  show ?case by (simp add: a b Cons.IH vtt_lines_of_def)
qed

lemma concat_vtt_lines:
  "concat (map (\<lambda>x. x @ NL) (concat (map vtt_lines_of segs))) = concat (map vtt_block segs)"
  by (induction segs) (simp_all add: vtt_lines_of_def vtt_block_def)

lemma vtt_block_nonempty: "vtt_block s \<noteq> []"
  by (simp add: vtt_block_def NL_def)

lemma generate_vtt_blocks0:
  "generate_vtt r = Inr (butlast (''WEBVTT'' @ NL @ NL @ concat (map vtt_block (segments r))))"
proof -
  let ?lines = "[''WEBVTT'', []] @ concat (map vtt_lines_of (segments r))"
  have "concat (map (\<lambda>x. x @ NL) ?lines)
        = ''WEBVTT'' @ NL @ NL @ concat (map vtt_block (segments r))"
    using concat_vtt_lines [of "segments r"] by simp
  then have "py_join NL ?lines
        = butlast (''WEBVTT'' @ NL @ NL @ concat (map vtt_block (segments r)))"
    by (simp only: py_join_NL)
  then show ?thesis
    by (simp add: generate_vtt_def vtt_loop_lines del: butlast_append)
qed

lemma generate_vtt_blocks1:
  "generate_vtt r =
     Inr (if segments r = [] then ''WEBVTT'' @ NL
          else ''WEBVTT'' @ NL @ NL @ butlast (concat (map vtt_block (segments r))))"
proof (cases "segments r")
  case Nil
  then show ?thesis by (simp add: generate_vtt_blocks0 NL_def)
next
  case (Cons s segs)
  then have "concat (map vtt_block (segments r)) \<noteq> []"
    by (simp add: vtt_block_nonempty)
  then show ?thesis using Cons by (simp add: generate_vtt_blocks0 NL_def butlast_append)
qed

lemma digit_char_code: "d < 10 \<Longrightarrow> (of_char (digit_char d) :: nat) = 48 + d"
  by (simp add: digit_char_def)

lemma dec_digits_chars: "c \<in> set (dec_digits n) \<Longrightarrow> \<exists>d<10. c = digit_char d"
proof (induction n rule: dec_digits.induct)
  case (1 n)
  show ?case
  proof (cases "n < 10")
    case True
    then show ?thesis using "1.prems" by (auto simp add: dec_digits.simps [of n])
  next
    case False
    then have "c \<in> set (dec_digits (n div 10)) \<or> c = digit_char (n mod 10)"
      using "1.prems" by (auto simp add: dec_digits.simps [of n])
    then show ?thesis
    proof
      assume "c \<in> set (dec_digits (n div 10))"
      then show ?thesis using "1.IH" False by blast
    next
      assume "c = digit_char (n mod 10)"
      moreover have "n mod 10 < 10" by simp
      ultimately show ?thesis by blast
    qed
  qed
qed

lemma format_d_chars:
  "c \<in> set (format_d w i) \<Longrightarrow> c \<noteq> CHR '','' \<and> c \<noteq> CHR ''.''"
proof -
  assume c: "c \<in> set (format_d w i)"
  have dg: "c \<noteq> CHR '','' \<and> c \<noteq> CHR ''.''" if cn: "c \<in> set (dec_digits n)" for n
  proof -
    obtain d where d: "d < 10" "c = digit_char d" using dec_digits_chars [OF cn] by blast
    then have "(of_char c :: nat) = 48 + d" by (simp add: digit_char_code)
    then show ?thesis using d by auto
  qed
  from c have "c = CHR ''-'' \<or> c = CHR ''0'' \<or> (\<exists>n. c \<in> set (dec_digits n))"
    by (auto simp add: format_d_def zfill_def split: if_splits)
  then show ?thesis using dg by auto
qed

lemma format_timestamp_separator:
  "\<exists>clock ms. format_timestamp s ''vtt'' = Inr (clock @ ''.'' @ ms)
           \<and> format_timestamp s ''srt'' = Inr (clock @ '','' @ ms)
           \<and> CHR '','' \<notin> set (clock @ ms) \<and> CHR ''.'' \<notin> set (clock @ ms)"
proof -
  define h where "h = py_int (py_floordiv s 3600)"
  define m where "m = py_int (py_floordiv (py_mod s 3600) 60)"
  define sec where "sec = py_int (py_mod (py_mod s 3600) 60)"
  define ms where "ms = py_int (fmul (fsub (py_mod (py_mod s 3600) 60)
                           (of_int (py_int (py_mod (py_mod s 3600) 60)))) 1000)"
  let ?clock = "format_d 2 h @ '':'' @ format_d 2 m @ '':'' @ format_d 2 sec"
  have 1: "format_timestamp s ''vtt'' = Inr (?clock @ ''.'' @ format_d 3 ms)"
    by (simp add: format_timestamp_def Let_def py_lower_srt h_def m_def sec_def ms_def)
  have 2: "format_timestamp s ''srt'' = Inr (?clock @ '','' @ format_d 3 ms)"
    by (simp add: format_timestamp_def Let_def py_lower_srt h_def m_def sec_def ms_def)
  have 3: "CHR '','' \<notin> set (?clock @ format_d 3 ms) \<and> CHR ''.'' \<notin> set (?clock @ format_d 3 ms)"
    using format_d_chars by fastforce
  show ?thesis using 1 2 3 by blast
qed

lemma vtt_block_seg_id: "vtt_block (seg_id_update f s) = vtt_block s"
  by (simp add: vtt_block_def)

text \<open>
  Claim C1, as it is stated: the output of \<open>generate_srt\<close> is, for each segment in
  order, the number line, the timestamp line, the text line and a blank line.  This
  fails for the last segment: the lines are joined by new lines, so the output ends
  with the new line after the last text and no blank line follows.
\<close>

theorem generate_srt_blank_line_counterexample:
  "generate_srt
     \<lparr>res_text = ''Hi'',
      segments = [\<lparr>seg_id = 0, seg_start = 0, seg_end = 2.5, seg_text = ''Hi''\<rparr>],
      language = ''en''\<rparr>
   \<noteq> Inr (concat (map srt_block
           (segments
              \<lparr>res_text = ''Hi'',
               segments = [\<lparr>seg_id = 0, seg_start = 0, seg_end = 2.5, seg_text = ''Hi''\<rparr>],
               language = ''en''\<rparr>)))"
  by code_simp

text \<open>
  Claim C1, amended.  For every result, the output of \<open>generate_srt\<close> is the blocks
  of the segments in order, each block being the number \<open>id + 1\<close> on a line, the line
  with the two timestamps, the text on a line and an empty line, without the very last
  character: a blank line follows every segment but the last, whose text is followed by
  one new line.  For the example result the output starts with
  \<open>1\<close>, \<open>00:00:00,000 --> 00:00:02,500\<close>, \<open>This is a test\<close>, each ended by a new line.
\<close>

theorem generate_srt_blocks:
  "generate_srt r = Inr (butlast (concat (map srt_block (segments r))))
   \<and> generate_srt sample_result =
       Inr (''1'' @ NL @ ''00:00:00,000 --> 00:00:02,500'' @ NL @ ''This is a test'' @ NL
            @ NL @ ''2'' @ NL @ ''00:00:02,500 --> 00:00:05,000'' @ NL @ ''transcription with'' @ NL
            @ NL @ ''3'' @ NL @ ''00:00:05,000 --> 00:00:07,500'' @ NL @ ''multiple segments.'' @ NL)"
proof
  show "generate_srt r = Inr (butlast (concat (map srt_block (segments r))))"
    by (rule generate_srt_blocks0)
  show "generate_srt sample_result =
       Inr (''1'' @ NL @ ''00:00:00,000 --> 00:00:02,500'' @ NL @ ''This is a test'' @ NL
            @ NL @ ''2'' @ NL @ ''00:00:02,500 --> 00:00:05,000'' @ NL @ ''transcription with'' @ NL
            @ NL @ ''3'' @ NL @ ''00:00:05,000 --> 00:00:07,500'' @ NL @ ''multiple segments.'' @ NL)"
    by code_simp
qed

theorem generate_srt_blocks_witness:
  "generate_srt
     \<lparr>res_text = ''Hi'',
      segments = [\<lparr>seg_id = 4, seg_start = 3600, seg_end = 3661.5, seg_text = ''Hi''\<rparr>],
      language = ''en''\<rparr>
   = Inr (''5'' @ NL @ ''01:00:00,000 --> 01:01:01,500'' @ NL @ ''Hi'' @ NL)"
proof -
  have "butlast (concat (map srt_block
          [\<lparr>seg_id = 4, seg_start = 3600, seg_end = 3661.5, seg_text = ''Hi''\<rparr>]))
        = ''5'' @ NL @ ''01:00:00,000 --> 01:01:01,500'' @ NL @ ''Hi'' @ NL"
    by code_simp
  then show ?thesis
    using generate_srt_blocks
      [of "\<lparr>res_text = ''Hi'',
            segments = [\<lparr>seg_id = 4, seg_start = 3600, seg_end = 3661.5, seg_text = ''Hi''\<rparr>],
            language = ''en''\<rparr>"]
    by simp
qed

text \<open>
  Claim C2, as it is stated: for every result the output of \<open>generate_vtt\<close> begins
  with the line \<open>WEBVTT\<close> and a blank line.  For a result with no segment the output
  is \<open>WEBVTT\<close> and one new line, so there is no blank line.
\<close>

theorem generate_vtt_header_counterexample:
  "generate_vtt \<lparr>res_text = [], segments = [], language = ''en''\<rparr> = Inr (''WEBVTT'' @ NL)
   \<and> take 8 (projr (generate_vtt \<lparr>res_text = [], segments = [], language = ''en''\<rparr>))
       \<noteq> ''WEBVTT'' @ NL @ NL"
  by code_simp

text \<open>
  Claim C2, amended.  For every result with at least one segment, the output of
  \<open>generate_vtt\<close> is the line \<open>WEBVTT\<close>, a blank line and the blocks of the segments
  in order (the line with the two timestamps, the text on a line, an empty line),
  without the very last character; for a result with no segment it is \<open>WEBVTT\<close> and
  one new line.  The output has no sequence numbers: it does not depend on the \<open>id\<close>
  of the segments.  Every timestamp is the SRT timestamp with a period where the SRT
  timestamp has its comma, and has no comma.  For the example result the output starts
  with \<open>WEBVTT\<close>, an empty line, \<open>00:00:00.000 --> 00:00:02.500\<close> and \<open>This is a test\<close>,
  each ended by a new line.
\<close>

theorem generate_vtt_blocks:
  "generate_vtt r =
     Inr (if segments r = [] then ''WEBVTT'' @ NL
          else ''WEBVTT'' @ NL @ NL @ butlast (concat (map vtt_block (segments r))))
   \<and> generate_vtt (r\<lparr>segments := map (seg_id_update f) (segments r)\<rparr>) = generate_vtt r
   \<and> (\<exists>clock ms. format_timestamp s ''vtt'' = Inr (clock @ ''.'' @ ms)
          \<and> format_timestamp s ''srt'' = Inr (clock @ '','' @ ms)
          \<and> CHR '','' \<notin> set (clock @ ms) \<and> CHR ''.'' \<notin> set (clock @ ms))
   \<and> generate_vtt sample_result =
       Inr (''WEBVTT'' @ NL @ NL @ ''00:00:00.000 --> 00:00:02.500'' @ NL @ ''This is a test'' @ NL
            @ NL @ ''00:00:02.500 --> 00:00:05.000'' @ NL @ ''transcription with'' @ NL
            @ NL @ ''00:00:05.000 --> 00:00:07.500'' @ NL @ ''multiple segments.'' @ NL)"
proof (intro conjI)
  show "generate_vtt r =
     Inr (if segments r = [] then ''WEBVTT'' @ NL
          else ''WEBVTT'' @ NL @ NL @ butlast (concat (map vtt_block (segments r))))"
    by (rule generate_vtt_blocks1)
  show "generate_vtt (r\<lparr>segments := map (seg_id_update f) (segments r)\<rparr>) = generate_vtt r"
    by (simp add: generate_vtt_blocks0 vtt_block_seg_id comp_def)
  show "\<exists>clock ms. format_timestamp s ''vtt'' = Inr (clock @ ''.'' @ ms)
          \<and> format_timestamp s ''srt'' = Inr (clock @ '','' @ ms)
          \<and> CHR '','' \<notin> set (clock @ ms) \<and> CHR ''.'' \<notin> set (clock @ ms)"
    by (rule format_timestamp_separator)
  show "generate_vtt sample_result =
       Inr (''WEBVTT'' @ NL @ NL @ ''00:00:00.000 --> 00:00:02.500'' @ NL @ ''This is a test'' @ NL
            @ NL @ ''00:00:02.500 --> 00:00:05.000'' @ NL @ ''transcription with'' @ NL
            @ NL @ ''00:00:05.000 --> 00:00:07.500'' @ NL @ ''multiple segments.'' @ NL)"
    by code_simp
qed

theorem generate_vtt_blocks_witness:
  "generate_vtt
     \<lparr>res_text = ''Hi'',
      segments = [\<lparr>seg_id = 4, seg_start = 3600, seg_end = 3661.5, seg_text = ''Hi''\<rparr>],
      language = ''en''\<rparr>
   = Inr (''WEBVTT'' @ NL @ NL @ ''01:00:00.000 --> 01:01:01.500'' @ NL @ ''Hi'' @ NL)"
proof -
  have "butlast (concat (map vtt_block
          [\<lparr>seg_id = 4, seg_start = 3600, seg_end = 3661.5, seg_text = ''Hi''\<rparr>]))
        = ''01:00:00.000 --> 01:01:01.500'' @ NL @ ''Hi'' @ NL"
    by code_simp
  then show ?thesis
    using generate_vtt_blocks
      [of "\<lparr>res_text = ''Hi'',
            segments = [\<lparr>seg_id = 4, seg_start = 3600, seg_end = 3661.5, seg_text = ''Hi''\<rparr>],
            language = ''en''\<rparr>"]
    by simp
qed

section \<open>The timestamp\<close>








lemma dec_digits_small: "n < 10 \<Longrightarrow> dec_digits n = [digit_char n]"
  by (simp add: dec_digits.simps [of n])

lemma dec_digits_step:
  "10 \<le> n \<Longrightarrow> dec_digits n = dec_digits (n div 10) @ [digit_char (n mod 10)]"
  by (simp add: dec_digits.simps [of n])

lemma dec_digits_nonempty: "dec_digits n \<noteq> []"
  by (cases "n < 10") (simp_all add: dec_digits_small dec_digits_step)


lemma digit_value: "d < 10 \<Longrightarrow> (of_char (digit_char d) :: nat) - 48 = d"
  by (simp add: digit_char_code)

lemma digits_value_snoc:
  "digits_value (ds @ [c]) = 10 * digits_value ds + (of_char c - 48)"
  by (simp add: digits_value_def)

lemma digits_value_dec: "digits_value (dec_digits n) = n"
proof (induction n rule: dec_digits.induct)
  case (1 n)
  show ?case
  proof (cases "n < 10")
    case True
    then show ?thesis by (simp add: dec_digits_small digits_value_def digit_value)
  next
    case False
    then have "digits_value (dec_digits (n div 10)) = n div 10" using "1.IH" by simp
    then show ?thesis using False by (simp add: dec_digits_step digits_value_snoc digit_value)
  qed
qed








lemma digit_char_0: "digit_char 0 = CHR ''0''"
  by code_simp







lemma digit_char_eq:
  assumes a: "a < 10" and b: "b < 10"
  shows "digit_char a = digit_char b \<longleftrightarrow> a = b"
proof
  assume "digit_char a = digit_char b"
  then have "(of_char (digit_char a) :: nat) = of_char (digit_char b)" by (simp only:)
  then have "48 + a = 48 + b" by (simp only: digit_char_code [OF a] digit_char_code [OF b])
  then show "a = b" by simp
next
  assume "a = b"
  then show "digit_char a = digit_char b" by simp
qed







lemma is_double_int: "\<bar>n\<bar> \<le> 2 ^ 53 \<Longrightarrow> is_double (of_int n)"
  using is_double_repr [of n 0] by simp




section \<open>Order of the timestamps\<close>



text \<open>
  The hours fields must have the same width: 99 hours and 100 hours compare the other
  way round as strings.
\<close>

lemma format_timestamp_hours_scale:
  "format_timestamp 359999 ''srt'' = Inr ''99:59:59,000''
   \<and> format_timestamp 360000 ''srt'' = Inr ''100:00:00,000''
   \<and> \<not> (''99:59:59,000'' :: string) \<le> ''100:00:00,000''"
  by code_simp

section \<open>Saving the files\<close>




section \<open>Audio normalisation\<close>

lemma preprocess_audio_normalized:
  "channels audio = 1 \<Longrightarrow> frame_rate audio = SAMPLE_RATE
   \<Longrightarrow> preprocess_audio mix resample audio = (audio, [])"
  by (simp add: preprocess_audio_def)

lemma preprocess_audio_result:
  "1 \<le> channels audio \<Longrightarrow>
     channels (fst (preprocess_audio mix resample audio)) = 1
   \<and> frame_rate (fst (preprocess_audio mix resample audio)) = SAMPLE_RATE"
  by (auto simp add: preprocess_audio_def set_channels_def set_frame_rate_def Let_def)

text \<open>
  Claim C7.  For every audio segment (which has at least one channel), the result of
  \<open>preprocess_audio\<close> has exactly one channel and a frame rate of 16000 Hz, and
  \<open>preprocess_audio\<close> applied to that result returns it as it is and logs nothing:
  neither the channel conversion nor the resampling branch is taken.  So
  \<open>preprocess_audio\<close> is idempotent, in the channel count, the frame rate and the
  samples.
\<close>

theorem preprocess_audio_idempotent:
  assumes "1 \<le> channels x"
  shows "channels (fst (preprocess_audio mix resample x)) = 1
       \<and> frame_rate (fst (preprocess_audio mix resample x)) = 16000
       \<and> preprocess_audio mix resample (fst (preprocess_audio mix resample x))
           = (fst (preprocess_audio mix resample x), [])"
proof -
  have n: "channels (fst (preprocess_audio mix resample x)) = 1"
    "frame_rate (fst (preprocess_audio mix resample x)) = SAMPLE_RATE"
    using preprocess_audio_result [OF assms] by simp_all
  show ?thesis
    using n preprocess_audio_normalized [OF n, of mix resample]
    by (simp add: SAMPLE_RATE_def)
qed

theorem preprocess_audio_idempotent_witness:
  "(let x = \<lparr>channels = 2, frame_rate = 44100, sample_width = 2, samples = [1, 3, -2, 4]\<rparr>;
        mix = (\<lambda>a n. [2, 1]); resample = (\<lambda>a r. [2])
    in 1 \<le> channels x
     \<and> fst (preprocess_audio mix resample x)
         = \<lparr>channels = 1, frame_rate = 16000, sample_width = 2, samples = [2]\<rparr>
     \<and> preprocess_audio mix resample (fst (preprocess_audio mix resample x))
         = (fst (preprocess_audio mix resample x), []))"
  using preprocess_audio_idempotent
    [of "\<lparr>channels = 2, frame_rate = 44100, sample_width = 2, samples = [1, 3, -2, 4]\<rparr>"
        "\<lambda>a n. [2, 1]" "\<lambda>a r. [2]"]
  by (simp add: preprocess_audio_def set_channels_def set_frame_rate_def SAMPLE_RATE_def Let_def)

section \<open>The sample buffer\<close>

lemma fl32_mono: "x \<le> y \<Longrightarrow> fl32 x \<le> fl32 y"
  unfolding fl32_def by (rule float_round_mono) simp_all

lemma fl32_minus: "fl32 (- x) = - fl32 x"
  unfolding fl32_def by (rule float_round_minus)

lemma fl32_repr: "\<bar>m\<bar> \<le> 2 ^ 24 \<Longrightarrow> - 149 \<le> e \<Longrightarrow> fl32 (of_int m * 2 powi e) = of_int m * 2 powi e"
  unfolding fl32_def by (rule float_round_repr) simp_all

lemma fl32_pow2: "fl32 (2 ^ k) = 2 ^ k"
  using fl32_repr [of 1 "int k"] by simp

lemma fl32_small_int: "\<bar>n\<bar> \<le> 2 ^ 24 \<Longrightarrow> fl32 (of_int n) = of_int n"
  using fl32_repr [of n 0] by simp

lemma ilog2_ge_0: "1 \<le> x \<Longrightarrow> 0 \<le> ilog2 x"
proof -
  assume x: "1 \<le> x"
  have "ilog2 1 = 0" by (rule ilog2_unique) simp_all
  moreover have "ilog2 1 \<le> ilog2 x" using x by (intro ilog2_mono) simp_all
  ultimately show ?thesis by simp
qed

lemma fl32_int_form:
  "\<exists>m e. fl32 (of_int n) = of_int m * 2 powi e \<and> \<bar>m\<bar> \<le> 2 ^ 24 \<and> - 23 \<le> e"
proof (cases "n = 0")
  case True
  then show ?thesis
    by (intro exI [of _ 0] exI [of _ 0]) (simp add: fl32_def float_round_0)
next
  case False
  then have "1 \<le> \<bar>real_of_int n\<bar>" by (simp add: abs_if)
  then have "0 \<le> ilog2 \<bar>real_of_int n\<bar>" by (rule ilog2_ge_0)
  then have e: "- 23 \<le> float_exp 24 (- 149) (of_int n)" by (simp add: float_exp_def)
  from float_round_form [of 24 "- 149" "of_int n"] obtain m where
    "float_round 24 (- 149) (of_int n) = of_int m * 2 powi float_exp 24 (- 149) (of_int n)"
    "\<bar>m\<bar> \<le> 2 ^ 24" by auto
  then show ?thesis using e unfolding fl32_def by blast
qed

lemma fl32_div_pow2:
  assumes k: "k \<le> 126"
  shows "fl32 (fl32 (of_int n) / fl32 (of_int (2 ^ k))) = fl32 (of_int n) / 2 ^ k"
proof -
  from fl32_int_form [of n] obtain m e where
    f: "fl32 (of_int n) = of_int m * 2 powi e" and m: "\<bar>m\<bar> \<le> 2 ^ 24" and e: "- 23 \<le> e"
    by blast
  have p: "fl32 (of_int (2 ^ k)) = 2 ^ k" using fl32_pow2 [of k] by simp
  have "(2::real) powi (e - int k) = 2 powi e / 2 ^ k"
    by (simp add: power_int_diff)
  then have q: "fl32 (of_int n) / 2 ^ k = of_int m * 2 powi (e - int k)" by (simp add: f)
  have "- 149 \<le> e - int k" using k e by simp
  then have "fl32 (of_int m * 2 powi (e - int k)) = of_int m * 2 powi (e - int k)"
    using m by (intro fl32_repr)
  then show ?thesis by (simp only: p q)
qed

lemma fl32_int_bounds:
  assumes "- (2 ^ k) \<le> n" and "n \<le> 2 ^ k"
  shows "- (2 ^ k) \<le> fl32 (of_int n)" and "fl32 (of_int n) \<le> 2 ^ k"
proof -
  have "real_of_int n \<le> 2 ^ k" using assms(2) by (metis of_int_le_iff of_int_numeral of_int_power)
  then have "fl32 (of_int n) \<le> fl32 (2 ^ k)" by (rule fl32_mono)
  then show "fl32 (of_int n) \<le> 2 ^ k" by (simp only: fl32_pow2)
  have "- (2 ^ k) \<le> real_of_int n" using assms(1)
    by (metis of_int_le_iff of_int_numeral of_int_power of_int_minus)
  then have "fl32 (- (2 ^ k)) \<le> fl32 (of_int n)" by (rule fl32_mono)
  then show "- (2 ^ k) \<le> fl32 (of_int n)" by (simp only: fl32_minus fl32_pow2)
qed

text \<open>
  Claim C8.  For an audio segment with a sample width of one to four bytes whose
  samples lie between \<open>- 2 ^ (b - 1)\<close> and \<open>2 ^ (b - 1) - 1\<close>, \<open>b\<close> being the bit depth,
  \<open>get_audio_array\<close> returns the samples converted to \<open>float32\<close> and divided by
  \<open>2 ^ (b - 1)\<close>, the division being exact; every value lies between \<open>- 1\<close> and \<open>1\<close>;
  the least sample \<open>- 2 ^ (b - 1)\<close> gives exactly \<open>- 1\<close>; and up to three bytes the
  conversion to \<open>float32\<close> is exact as well, so the value is the sample divided by
  \<open>2 ^ (b - 1)\<close>.
\<close>

theorem get_audio_array_normalized:
  assumes w: "1 \<le> sample_width audio \<and> sample_width audio \<le> 4"
    and r: "\<forall>x \<in> set (samples audio). - max_amplitude audio \<le> x \<and> x \<le> max_amplitude audio - 1"
  shows "get_audio_array audio
           = Inr (map (\<lambda>x. fl32 (of_int x) / of_int (max_amplitude audio)) (samples audio))
       \<and> (\<forall>y \<in> set (projr (get_audio_array audio)). - 1 \<le> y \<and> y \<le> 1)
       \<and> fl32 (of_int (- max_amplitude audio)) / of_int (max_amplitude audio) = - 1
       \<and> (sample_width audio \<le> 3 \<longrightarrow>
            get_audio_array audio
              = Inr (map (\<lambda>x. of_int x / of_int (max_amplitude audio)) (samples audio)))"
proof -
  define k where "k = nat (8 * sample_width audio - 1)"
  have A: "max_amplitude audio = 2 ^ k" by (simp add: max_amplitude_def k_def)
  have Ar: "real_of_int (max_amplitude audio) = 2 ^ k" by (simp add: A)
  have k: "k \<le> 126" using w by (simp add: k_def nat_le_iff)
  have nn: "\<not> 8 * sample_width audio - 1 < 0" using w by simp
  have 1: "get_audio_array audio
           = Inr (map (\<lambda>x. fl32 (of_int x) / of_int (max_amplitude audio)) (samples audio))"
    using nn fl32_div_pow2 [OF k]
    by (simp add: get_audio_array_def Let_def Ar k_def [symmetric] comp_def)
  have b: "- 1 \<le> fl32 (of_int x) / of_int (max_amplitude audio)
         \<and> fl32 (of_int x) / of_int (max_amplitude audio) \<le> 1" if "x \<in> set (samples audio)" for x
  proof -
    have "- (2 ^ k) \<le> x" "x \<le> 2 ^ k" using r that by (auto simp add: A)
    then have "- (2 ^ k) \<le> fl32 (of_int x)" "fl32 (of_int x) \<le> 2 ^ k"
      by (rule fl32_int_bounds)+
    then show ?thesis by (simp add: Ar field_simps)
  qed
  have 2: "\<forall>y \<in> set (projr (get_audio_array audio)). - 1 \<le> y \<and> y \<le> 1"
    using b by (auto simp add: 1)
  have "fl32 (- (2 ^ k)) = - (2 ^ k)" by (simp only: fl32_minus fl32_pow2)
  then have 3: "fl32 (of_int (- max_amplitude audio)) / of_int (max_amplitude audio) = - 1"
    by (simp add: A)
  have 4: "get_audio_array audio
              = Inr (map (\<lambda>x. of_int x / of_int (max_amplitude audio)) (samples audio))"
    if w3: "sample_width audio \<le> 3"
  proof -
    have k3: "k \<le> 23" using w w3 by (simp add: k_def nat_le_iff)
    have "fl32 (of_int x) = of_int x" if x: "x \<in> set (samples audio)" for x
    proof -
      have "(2::int) ^ k \<le> 2 ^ 24" using k3 by (intro power_increasing) simp_all
      moreover have "- (2 ^ k) \<le> x" "x \<le> 2 ^ k" using r x by (auto simp add: A)
      ultimately have "\<bar>x\<bar> \<le> 2 ^ 24" by linarith
      then show ?thesis by (rule fl32_small_int)
    qed
    then show ?thesis by (simp add: 1)
  qed
  show ?thesis using 1 2 3 4 by blast
qed

theorem get_audio_array_normalized_witness:
  "(let audio = \<lparr>channels = 1, frame_rate = 16000, sample_width = 2,
                  samples = [- 32768, 0, 16384, 32767]\<rparr>
    in (1 \<le> sample_width audio \<and> sample_width audio \<le> 4)
     \<and> (\<forall>x \<in> set (samples audio). - max_amplitude audio \<le> x \<and> x \<le> max_amplitude audio - 1)
     \<and> get_audio_array audio = Inr [- 1, 0, 1 / 2, 32767 / 32768])"
proof -
  let ?audio = "\<lparr>channels = 1, frame_rate = 16000, sample_width = 2,
                  samples = [- 32768, 0, 16384, 32767]\<rparr>"
  have A: "max_amplitude ?audio = 32768" by (simp add: max_amplitude_def)
  have w: "1 \<le> sample_width ?audio \<and> sample_width ?audio \<le> 4" by simp
  have r: "\<forall>x \<in> set (samples ?audio). - max_amplitude ?audio \<le> x \<and> x \<le> max_amplitude ?audio - 1"
    by (simp add: A)
  have "sample_width ?audio \<le> 3 \<longrightarrow> get_audio_array ?audio
              = Inr (map (\<lambda>x. of_int x / of_int (max_amplitude ?audio)) (samples ?audio))"
    using get_audio_array_normalized [OF w r] by blast
  moreover have "sample_width ?audio \<le> 3" by simp
  ultimately have "get_audio_array ?audio
              = Inr (map (\<lambda>x. of_int x / of_int (max_amplitude ?audio)) (samples ?audio))"
    by blast
  then have "get_audio_array ?audio = Inr [- 1, 0, 1 / 2, 32767 / 32768]"
    by (simp add: A)
  then show ?thesis using w r by (simp add: Let_def)
qed

section \<open>Validation of the task\<close>

text \<open>
  Claim C9.  \<open>transcribe\<close> raises the error of the task validation, the \<open>ValueError\<close>
  with the text \<open>Invalid task: ...\<close>, if and only if the task is neither \<open>transcribe\<close>
  nor \<open>translate\<close>; and when the task is invalid the transcriber is returned as it
  was: the check comes before the model is loaded, so the model handle is not set.
  (A failure of the engine on a valid task is a \<open>ValueError\<close> too, with the text
  \<open>Transcription failed: ...\<close>.)
\<close>

theorem transcribe_invalid_task_iff:
  "(fst (transcribe engine self audio lang task)
      = Inl (ValueError (''Invalid task: '' @ task @ ''. Choose from: transcribe, translate''))
    \<longleftrightarrow> task \<noteq> ''transcribe'' \<and> task \<noteq> ''translate'')
   \<and> (task \<noteq> ''transcribe'' \<and> task \<noteq> ''translate''
        \<longrightarrow> snd (transcribe engine self audio lang task) = self)"
  by (auto simp add: transcribe_def load_model_def split: option.splits sum.splits prod.splits)

theorem transcribe_invalid_task_iff_witness:
  "(let engine = \<lparr>whisper_load_model = (\<lambda>name dev. Inr (0 :: nat)),
                  model_transcribe = (\<lambda>m (a :: real list) l t. Inl ''out of memory'')\<rparr>;
        self = \<lparr>model_name = ''small'', device = None, model = None\<rparr>
    in transcribe engine self [] None ''summarize''
         = (Inl (ValueError ''Invalid task: summarize. Choose from: transcribe, translate''), self)
     \<and> fst (transcribe engine self [] None ''translate'')
         \<noteq> Inl (ValueError ''Invalid task: translate. Choose from: transcribe, translate''))"
  using transcribe_invalid_task_iff
    [of "\<lparr>whisper_load_model = (\<lambda>name dev. Inr (0 :: nat)),
          model_transcribe = (\<lambda>m (a :: real list) l t. Inl ''out of memory'')\<rparr>"
        "\<lparr>model_name = ''small'', device = None, model = None\<rparr>" "[]" None "''summarize''"]
    transcribe_invalid_task_iff
    [of "\<lparr>whisper_load_model = (\<lambda>name dev. Inr (0 :: nat)),
          model_transcribe = (\<lambda>m (a :: real list) l t. Inl ''out of memory'')\<rparr>"
        "\<lparr>model_name = ''small'', device = None, model = None\<rparr>" "[]" None "''translate''"]
  by (simp add: prod_eq_iff)

section \<open>Reading the JSON document back\<close>

lemma is_ws_simps:
  "is_ws CHR '' ''" "is_ws CHR 0x0A" "\<not> is_ws CHR 0x22" "\<not> is_ws CHR '':''" "\<not> is_ws CHR '',''"
  "\<not> is_ws CHR ''{''" "\<not> is_ws CHR ''}''" "\<not> is_ws CHR ''[''" "\<not> is_ws CHR '']''"
  by (simp_all add: is_ws_def)

lemma skip_ws_Nil: "skip_ws [] = []"
  by (simp add: skip_ws_def)

lemma skip_ws_ws: "is_ws c \<Longrightarrow> skip_ws (c # s) = skip_ws s"
  by (simp add: skip_ws_def)

lemma skip_ws_not_ws: "\<not> is_ws c \<Longrightarrow> skip_ws (c # s) = c # s"
  by (simp add: skip_ws_def)

lemma skip_ws_spaces: "skip_ws (replicate n CHR '' '' @ s) = skip_ws s"
  by (induction n) (simp_all add: skip_ws_ws is_ws_simps)

lemma skip_ws_newline_indent: "skip_ws (newline_indent n @ s) = skip_ws s"
  by (simp add: newline_indent_def NL_def skip_ws_ws is_ws_simps skip_ws_spaces)

lemma hex_value_hex_digit: "d < 16 \<Longrightarrow> hex_value (hex_digit d) = Some d"
  by (simp add: hex_value_def hex_digit_def Let_def)

lemma decode_escape:
  assumes "(of_char c :: nat) < 32"
  shows "decode_uXXXX (CHR ''0'' # CHR ''0'' # hex_digit (of_char c div 16)
           # hex_digit (of_char c mod 16) # t) = Some c"
proof -
  have z: "hex_value CHR ''0'' = Some 0" by (simp add: hex_value_def)
  have a: "hex_value (hex_digit (of_char c div 16)) = Some (of_char c div 16)"
    using assms by (intro hex_value_hex_digit) simp
  have b: "hex_value (hex_digit (of_char c mod 16)) = Some (of_char c mod 16)"
    by (intro hex_value_hex_digit) simp
  have "(of_char c :: nat) div 16 * 16 + of_char c mod 16 = of_char c" by simp
  then show ?thesis using assms by (simp add: decode_uXXXX_def z a b Let_def)
qed

lemma scanstring_escape_char:
  "scanstring chunks (escape_char c @ t) = scanstring (chunks @ [c]) t"
proof -
  consider "c = CHR 0x5C" | "c = CHR 0x22" | "c = CHR 0x08" | "c = CHR 0x0C" | "c = CHR 0x0A"
    | "c = CHR 0x0D" | "c = CHR 0x09"
    | "c \<noteq> CHR 0x5C" "c \<noteq> CHR 0x22" "c \<noteq> CHR 0x08" "c \<noteq> CHR 0x0C" "c \<noteq> CHR 0x0A"
      "c \<noteq> CHR 0x0D" "c \<noteq> CHR 0x09" "(of_char c :: nat) < 32"
    | "c \<noteq> CHR 0x5C" "c \<noteq> CHR 0x22" "\<not> (of_char c :: nat) < 32"
    by blast
  then show ?thesis
  proof cases
    case 8
    then show ?thesis
      by (simp add: escape_char_def decode_escape)
  next
    case 9
    then have "escape_char c = [c]" by (auto simp add: escape_char_def)
    then show ?thesis using 9 by simp
  qed (simp_all add: escape_char_def backslash_def)
qed

lemma scanstring_encode:
  "scanstring chunks (concat (map escape_char s) @ CHR 0x22 # rest) = Some (chunks @ s, rest)"
proof (induction s arbitrary: chunks)
  case Nil
  show ?case by simp
next
  case (Cons c s)
  have "scanstring chunks (concat (map escape_char (c # s)) @ CHR 0x22 # rest)
        = scanstring chunks (escape_char c @ (concat (map escape_char s) @ CHR 0x22 # rest))"
    by simp
  also have "\<dots> = scanstring (chunks @ [c]) (concat (map escape_char s) @ CHR 0x22 # rest)"
    by (rule scanstring_escape_char)
  also have "\<dots> = Some (chunks @ c # s, rest)" using Cons.IH [of "chunks @ [c]"] by simp
  finally show ?case .
qed

lemma scan_Val_string: "scan Val (encode_basestring s @ rest) = Some (JStr s, rest)"
  by (subst scan.simps) (simp add: encode_basestring_def scanstring_encode)


lemma is_digit_digit_char: "d < 10 \<Longrightarrow> is_digit (digit_char d)"
  by (simp add: is_digit_def digit_char_code)

lemma dec_digits_is_digit: "c \<in> set (dec_digits n) \<Longrightarrow> is_digit c"
  using dec_digits_chars [of c n] is_digit_digit_char by blast

lemma dec_digits_0: "dec_digits 0 = ''0''"
  by (simp add: dec_digits_small digit_char_0)

lemma dec_digits_hd: "n \<noteq> 0 \<Longrightarrow> hd (dec_digits n) \<noteq> CHR ''0''"
proof (induction n rule: dec_digits.induct)
  case (1 n)
  show ?case
  proof (cases "n < 10")
    case True
    have "digit_char n \<noteq> digit_char 0"
      using True "1.prems" digit_char_eq [of n 0] by simp
    then show ?thesis using True by (simp add: dec_digits_small digit_char_0)
  next
    case False
    then have "n div 10 \<noteq> 0" by simp
    then have "hd (dec_digits (n div 10)) \<noteq> CHR ''0''" using "1.IH" False by simp
    then show ?thesis using False dec_digits_nonempty [of "n div 10"]
      by (simp add: dec_digits_step)
  qed
qed

lemma not_digit_comma: "\<not> is_digit CHR '',''"
  by (simp add: is_digit_def)

lemma match_exp_comma: "match_exp (CHR '','' # rest) = (None, CHR '','' # rest)"
  by (simp add: match_exp_def)

lemma match_number_nat:
  "match_number (dec_digits n @ CHR '','' # rest) = Some (JInt (int n), CHR '','' # rest)"
proof -
  let ?s = "dec_digits n @ CHR '','' # rest"
  obtain c ds where ds: "dec_digits n = c # ds"
    using dec_digits_nonempty [of n] by (cases "dec_digits n") auto
  have cd: "is_digit c" using dec_digits_is_digit [of c n] ds by simp
  have cm: "c \<noteq> CHR ''-''" using cd by (auto simp add: is_digit_def)
  have tw: "takeWhile is_digit ?s = dec_digits n"
    using dec_digits_is_digit by (simp add: takeWhile_append2 not_digit_comma)
  have dw: "dropWhile is_digit ?s = CHR '','' # rest"
    using dec_digits_is_digit by (simp add: dropWhile_append2 not_digit_comma)
  have fr: "match_frac (CHR '','' # rest) = ([], CHR '','' # rest)"
    by (cases rest) (simp_all add: match_frac_def)
  show ?thesis
  proof (cases "n = 0")
    case True
    then show ?thesis
      by (simp add: match_number_def dec_digits_0 is_digit_def match_exp_comma fr digits_value_def)
  next
    case False
    then have "hd ?s \<noteq> CHR ''0''" using dec_digits_hd [of n] ds by simp
    moreover have "hd ?s = c" "?s \<noteq> []" by (simp_all add: ds)
    ultimately show ?thesis
      using cd cm
      by (simp add: match_number_def tw dw fr match_exp_comma digits_value_dec del: append.simps)
  qed
qed

lemma match_number_int:
  "match_number (py_str_int i @ CHR '','' # rest) = Some (JInt i, CHR '','' # rest)"
proof (cases "i < 0")
  case False
  then show ?thesis using match_number_nat [of "nat i" rest] by (simp add: py_str_int_def)
next
  case True
  let ?s = "dec_digits (nat (- i)) @ CHR '','' # rest"
  obtain c ds where ds: "dec_digits (nat (- i)) = c # ds"
    using dec_digits_nonempty [of "nat (- i)"] by (cases "dec_digits (nat (- i))") auto
  have cd: "is_digit c" using dec_digits_is_digit [of c "nat (- i)"] ds by simp
  have tw: "takeWhile is_digit ?s = dec_digits (nat (- i))"
    using dec_digits_is_digit by (simp add: takeWhile_append2 not_digit_comma)
  have dw: "dropWhile is_digit ?s = CHR '','' # rest"
    using dec_digits_is_digit by (simp add: dropWhile_append2 not_digit_comma)
  have fr: "match_frac (CHR '','' # rest) = ([], CHR '','' # rest)"
    by (cases rest) (simp_all add: match_frac_def)
  have n0: "nat (- i) \<noteq> 0" using True by simp
  then have "hd ?s \<noteq> CHR ''0''" using dec_digits_hd [of "nat (- i)"] ds by simp
  moreover have "hd ?s = c" "?s \<noteq> []" by (simp_all add: ds)
  ultimately have "match_number (CHR ''-'' # ?s) = Some (JInt i, CHR '','' # rest)"
    using cd True
    by (simp add: match_number_def tw dw fr match_exp_comma digits_value_dec del: append.simps)
  then show ?thesis using True by (simp add: py_str_int_def)
qed

lemma scan_Val_number:
  assumes "s \<noteq> []" and "is_digit (hd s) \<or> hd s = CHR ''-''"
  shows "scan Val s = match_number s"
proof -
  obtain c r where s: "s = c # r" using assms(1) by (cases s) auto
  have c: "is_digit c \<or> c = CHR ''-''" using assms(2) s by simp
  then have "c \<noteq> CHR 0x22" "c \<noteq> CHR ''{''" "c \<noteq> CHR ''[''" "c \<noteq> CHR ''n''"
    "c \<noteq> CHR ''t''" "c \<noteq> CHR ''f''"
    by (auto simp add: is_digit_def)
  then show ?thesis unfolding s by (subst scan.simps) simp
qed

lemma scan_Val_int:
  "scan Val (py_str_int i @ CHR '','' # rest) = Some (JInt i, CHR '','' # rest)"
proof -
  obtain c ds where ds: "dec_digits (nat \<bar>i\<bar>) = c # ds"
    using dec_digits_nonempty [of "nat \<bar>i\<bar>"] by (cases "dec_digits (nat \<bar>i\<bar>)") auto
  have cd: "is_digit c" using dec_digits_is_digit [of c "nat \<bar>i\<bar>"] ds by simp
  have "is_digit (hd (py_str_int i @ CHR '','' # rest)) \<or> hd (py_str_int i @ CHR '','' # rest) = CHR ''-''"
    using cd ds by (cases "i < 0") (simp_all add: py_str_int_def abs_if)
  moreover have "py_str_int i @ CHR '','' # rest \<noteq> []" by simp
  ultimately have "scan Val (py_str_int i @ CHR '','' # rest)
                   = match_number (py_str_int i @ CHR '','' # rest)"
    by (intro scan_Val_number)
  then show ?thesis by (simp only: match_number_int)
qed

lemma scan_Val_not_ws:
  assumes "scan Val s = Some x"
  shows "skip_ws s = s"
proof (cases s)
  case Nil
  then show ?thesis by (simp add: skip_ws_Nil)
next
  case (Cons c r)
  have "\<not> is_ws c"
  proof
    assume w: "is_ws c"
    then have d: "c \<noteq> CHR 0x22" "c \<noteq> CHR ''{''" "c \<noteq> CHR ''[''" "c \<noteq> CHR ''n''"
      "c \<noteq> CHR ''t''" "c \<noteq> CHR ''f''" "c \<noteq> CHR ''-''" "\<not> is_digit c"
      by (auto simp add: is_ws_def is_digit_def)
    have "scan Val (c # r) = None"
      using d by (subst scan.simps) (simp add: match_number_def)
    then show False using assms Cons by simp
  qed
  then show ?thesis using Cons by (simp add: skip_ws_not_ws)
qed


lemma skip_ws_basestring: "skip_ws (encode_basestring k @ t) = encode_basestring k @ t"
  by (simp add: encode_basestring_def skip_ws_not_ws is_ws_simps)

lemma scan_Members_step:
  assumes v: "scan Val (vt @ after) = Some (v, after)" and a: "skip_ws after = d # r4"
  shows "scan (Members pairs) (encode_basestring key @ '': '' @ vt @ after)
         = (if d = CHR ''}'' then Some (JDict (py_dict (pairs @ [(key, v)])), r4)
            else if d = CHR '','' then scan (Members (pairs @ [(key, v)])) (skip_ws r4)
            else None)"
proof -
  have s: "encode_basestring key @ '': '' @ vt @ after
           = CHR 0x22 # (concat (map escape_char key) @ CHR 0x22 # (CHR '':'' # CHR '' '' # vt @ after))"
    by (simp add: encode_basestring_def)
  have k: "scanstring [] (concat (map escape_char key) @ CHR 0x22 # (CHR '':'' # CHR '' '' # vt @ after))
           = Some (key, CHR '':'' # CHR '' '' # vt @ after)"
    using scanstring_encode [of "[]" key] by simp
  have c: "skip_ws (CHR '':'' # CHR '' '' # vt @ after) = CHR '':'' # CHR '' '' # vt @ after"
    by (simp add: skip_ws_not_ws is_ws_simps)
  have w: "skip_ws (CHR '' '' # vt @ after) = vt @ after"
    using scan_Val_not_ws [OF v] by (simp add: skip_ws_ws is_ws_simps)
  show ?thesis
    unfolding s by (subst scan.simps) (simp add: k c w v a)
qed

lemma scan_Items_step:
  assumes v: "scan Val (vt @ after) = Some (v, after)" and a: "skip_ws after = d # r'"
  shows "scan (Items vs) (vt @ after)
         = (if d = CHR '']'' then Some (JList (vs @ [v]), r')
            else if d = CHR '','' then scan (Items (vs @ [v])) (skip_ws r')
            else None)"
  by (subst scan.simps) (simp add: v a)

lemma scan_Val_object:
  assumes "skip_ws r = d # r'" and "d \<noteq> CHR ''}''"
  shows "scan Val (CHR ''{'' # r) = scan (Members []) (d # r')"
  using assms by (subst scan.simps) simp

lemma scan_Val_array:
  assumes "skip_ws r = d # r'" and "d \<noteq> CHR '']''"
  shows "scan Val (CHR ''['' # r) = scan (Items []) (d # r')"
  using assms by (subst scan.simps) simp

lemma scan_Val_empty_array: "scan Val (''[]'' @ rest) = Some (JList [], rest)"
  by (subst scan.simps) (simp add: skip_ws_not_ws is_ws_simps)

lemma py_dict_segment:
  "py_dict [(''id'', a), (''start'', b), (''end'', c), (''text'', d)]
     = [(''id'', a), (''start'', b), (''end'', c), (''text'', d)]"
  by (simp add: py_dict_def)

lemma py_dict_result:
  "py_dict [(''text'', a), (''language'', b), (''segments'', c)]
     = [(''text'', a), (''language'', b), (''segments'', c)]"
  by (simp add: py_dict_def)

lemma scan_segment:
  assumes rs: "reads_back fr (seg_start seg)" and re: "reads_back fr (seg_end seg)"
  shows "scan Val (iterencode fr 2 (segment_dict seg) @ rest) = Some (segment_dict seg, rest)"
proof -
  define t4 where "t4 = encode_basestring ''text'' @ '': '' @ encode_basestring (seg_text seg)
                          @ (newline_indent 2 @ CHR ''}'' # rest)"
  define t3 where "t3 = encode_basestring ''end'' @ '': '' @ fr (seg_end seg)
                          @ (CHR '','' # newline_indent 3 @ t4)"
  define t2 where "t2 = encode_basestring ''start'' @ '': '' @ fr (seg_start seg)
                          @ (CHR '','' # newline_indent 3 @ t3)"
  define t1 where "t1 = encode_basestring ''id'' @ '': '' @ py_str_int (seg_id seg)
                          @ (CHR '','' # newline_indent 3 @ t2)"
  have whole: "iterencode fr 2 (segment_dict seg) @ rest = CHR ''{'' # (newline_indent 3 @ t1)"
    by (simp add: segment_dict_def t1_def t2_def t3_def t4_def)
  have w: "skip_ws (newline_indent 3 @ t) = t" if "skip_ws t = t" for t
    using that by (simp add: skip_ws_newline_indent)
  have s4: "scan (Members p) t4 = Some (JDict (py_dict (p @ [(''text'', JStr (seg_text seg))])), rest)"
    for p
    unfolding t4_def
    by (subst scan_Members_step [where d = "CHR ''}''" and ?r4.0 = rest])
      (simp_all add: scan_Val_string skip_ws_newline_indent skip_ws_not_ws is_ws_simps)
  have s3: "scan (Members p) t3 = scan (Members (p @ [(''end'', JFloat (seg_end seg))])) t4" for p
    unfolding t3_def
    by (subst scan_Members_step [where d = "CHR '',''" and ?r4.0 = "newline_indent 3 @ t4"
          and v = "JFloat (seg_end seg)"])
      (use re in \<open>simp_all add: reads_back_def skip_ws_not_ws is_ws_simps skip_ws_newline_indent
          t4_def skip_ws_basestring\<close>)
  have s2: "scan (Members p) t2 = scan (Members (p @ [(''start'', JFloat (seg_start seg))])) t3" for p
    unfolding t2_def
    by (subst scan_Members_step [where d = "CHR '',''" and ?r4.0 = "newline_indent 3 @ t3"
          and v = "JFloat (seg_start seg)"])
      (use rs in \<open>simp_all add: reads_back_def skip_ws_not_ws is_ws_simps skip_ws_newline_indent
          t3_def skip_ws_basestring\<close>)
  have s1: "scan (Members p) t1 = scan (Members (p @ [(''id'', JInt (seg_id seg))])) t2" for p
    unfolding t1_def
    by (subst scan_Members_step [where d = "CHR '',''" and ?r4.0 = "newline_indent 3 @ t2"
          and v = "JInt (seg_id seg)"])
      (simp_all add: scan_Val_int skip_ws_not_ws is_ws_simps skip_ws_newline_indent
          t2_def skip_ws_basestring)
  obtain q r1 where t1q: "t1 = q # r1" and q: "q = CHR 0x22"
    by (simp add: t1_def encode_basestring_def)
  have "skip_ws (newline_indent 3 @ t1) = q # r1"
    by (simp add: skip_ws_newline_indent t1q q skip_ws_not_ws is_ws_simps)
  moreover have "q \<noteq> CHR ''}''" by (simp add: q)
  ultimately have X: "scan Val (CHR ''{'' # (newline_indent 3 @ t1)) = scan (Members []) t1"
    unfolding t1q by (rule scan_Val_object)
  have Y: "scan (Members []) t1 = Some (segment_dict seg, rest)"
    by (simp add: s1 s2 s3 s4 py_dict_segment segment_dict_def)
  show ?thesis unfolding whole X by (rule Y)
qed

lemma segment_text_head:
  "\<exists>t. iterencode fr 2 (segment_dict seg) = CHR ''{'' # t"
  by (simp add: segment_dict_def)

lemma scan_segments:
  assumes "segs \<noteq> []"
    and "\<forall>seg \<in> set segs. reads_back fr (seg_start seg) \<and> reads_back fr (seg_end seg)"
  shows "scan (Items vs)
           (py_join ('','' @ newline_indent 2) (map (iterencode fr 2) (map segment_dict segs))
            @ newline_indent 1 @ CHR '']'' # rest)
         = Some (JList (vs @ map segment_dict segs), rest)"
  using assms
proof (induction segs arbitrary: vs)
  case Nil
  then show ?case by simp
next
  case (Cons seg segs)
  have rb: "reads_back fr (seg_start seg)" "reads_back fr (seg_end seg)"
    using Cons.prems(2) by simp_all
  let ?e = "iterencode fr 2 (segment_dict seg)"
  show ?case
  proof (cases "segs = []")
    case True
    let ?after = "newline_indent 1 @ CHR '']'' # rest"
    have v: "scan Val (?e @ ?after) = Some (segment_dict seg, ?after)"
      using rb by (rule scan_segment)
    have a: "skip_ws ?after = CHR '']'' # rest"
      by (simp add: skip_ws_newline_indent skip_ws_not_ws is_ws_simps)
    have "scan (Items vs) (?e @ ?after) = Some (JList (vs @ [segment_dict seg]), rest)"
      using scan_Items_step [OF v a, of vs] by simp
    then show ?thesis using True by simp
  next
    case False
    then obtain seg' segs' where segs: "segs = seg' # segs'" by (cases segs) auto
    let ?tail = "py_join ('','' @ newline_indent 2) (map (iterencode fr 2) (map segment_dict segs))
                 @ newline_indent 1 @ CHR '']'' # rest"
    let ?after = "CHR '','' # newline_indent 2 @ ?tail"
    have tx: "py_join ('','' @ newline_indent 2)
                 (map (iterencode fr 2) (map segment_dict (seg # segs)))
               @ newline_indent 1 @ CHR '']'' # rest = ?e @ ?after"
      by (simp add: segs)
    have v: "scan Val (?e @ ?after) = Some (segment_dict seg, ?after)"
      using rb by (rule scan_segment)
    have a: "skip_ws ?after = CHR '','' # newline_indent 2 @ ?tail"
      by (simp add: skip_ws_not_ws is_ws_simps)
    obtain t where hd: "iterencode fr 2 (segment_dict seg') = CHR ''{'' # t"
      using segment_text_head by blast
    have "\<exists>u. ?tail = CHR ''{'' # u"
      by (cases segs') (simp_all add: segs hd)
    then have w: "skip_ws (newline_indent 2 @ ?tail) = ?tail"
      by (auto simp add: skip_ws_newline_indent skip_ws_not_ws is_ws_simps)
    have "scan (Items vs) (?e @ ?after) = scan (Items (vs @ [segment_dict seg])) ?tail"
      using scan_Items_step [OF v a, of vs] by (simp only: w) simp
    also have "\<dots> = Some (JList ((vs @ [segment_dict seg]) @ map segment_dict segs), rest)"
      using Cons.prems(2) False by (intro Cons.IH) simp_all
    finally show ?thesis unfolding tx by simp
  qed
qed

end
